theory Spec2Isabelle
  imports Main
begin

section \<open>Registers, bit references and instructions\<close>

text \<open>
  A register is a named, sized collection of bits of one kind. The classes
  \<^verbatim>\<open>QuantumRegister\<close> and \<^verbatim>\<open>ClassicalRegister\<close> are the two kinds that
  \<^verbatim>\<open>isinstance\<close> tells apart in \<^verbatim>\<open>_quantumcircuit.py\<close>. Registers are values
  here: two register objects with equal fields are the same value.
\<close>

datatype kind = Quantum | Classical

record register =
  reg_name :: string
  reg_size :: nat
  reg_kind :: kind

text \<open>A bit reference is the Python tuple \<^verbatim>\<open>(register, index)\<close>.\<close>

type_synonym bitref = "register \<times> int"

text \<open>
  An instruction as \<^verbatim>\<open>QuantumCircuit.dag\<close> reads it: \<^verbatim>\<open>name\<close>, \<^verbatim>\<open>param\<close>,
  \<^verbatim>\<open>arg\<close> (the operands, for a measurement the qubit followed by the classical bit)
  and \<^verbatim>\<open>control\<close> (\<^verbatim>\<open>None\<close> or a classical register with a value). The
  parameter values are left abstract.
\<close>

record 'p instruction =
  name :: string
  param :: "'p list"
  arg :: "bitref list"
  control :: "(register \<times> int) option"

text \<open>
  Every \<^verbatim>\<open>raise QISKitError(...)\<close> of the source is one of these kinds, told apart
  by its message:
  \<^item> \<^verbatim>\<open>"expected a register"\<close> is \<open>ExpectedRegisterError\<close>;
  \<^item> \<^verbatim>\<open>"register name ... already exists"\<close> is \<open>DuplicateRegisterNameError\<close>;
  \<^item> \<^verbatim>\<open>"circuits are not compatible"\<close> is \<open>IncompatibleRegistersError\<close>;
  \<^item> \<^verbatim>\<open>"expected quantum register"\<close> and \<^verbatim>\<open>"expected classical register"\<close> are
    \<open>WrongRegisterKindError\<close>;
  \<^item> \<^verbatim>\<open>"register '...' not in this circuit"\<close> is \<open>UnknownRegisterError\<close>;
  \<^item> \<^verbatim>\<open>"duplicate qubit arguments"\<close> is \<open>DuplicateQubitArgumentError\<close>;
  \<^item> the failure of \<^verbatim>\<open>check_range\<close> is \<open>OutOfRangeBitError\<close>.
  No \<^verbatim>\<open>raise\<close> of the three source files reports a size mismatch;
  \<open>SizeMismatchError\<close> is listed because the error catalogue names it.
  \<open>IndexError\<close> and \<open>KeyError\<close> are Python's own, raised by a list index out of
  range and by a dictionary lookup of a missing key.
\<close>

datatype error =
    DuplicateRegisterNameError
  | ExpectedRegisterError
  | IncompatibleRegistersError
  | UnknownRegisterError
  | WrongRegisterKindError
  | OutOfRangeBitError
  | DuplicateQubitArgumentError
  | SizeMismatchError
  | IndexError
  | KeyError

section \<open>The circuit\<close>

text \<open>
  \<^verbatim>\<open>self.data\<close> is the instruction list, \<^verbatim>\<open>self.regs\<close> an \<^verbatim>\<open>OrderedDict\<close> from
  names to registers: an association list in insertion order.
\<close>

record 'p circuit =
  data :: "'p instruction list"
  regs :: "(string \<times> register) list"

definition empty_circuit :: "'p circuit" where
  "empty_circuit = \<lparr>data = [], regs = []\<rparr>"

text \<open>\<^verbatim>\<open>QuantumCircuit.has_register\<close>.\<close>

definition has_register :: "'p circuit \<Rightarrow> register \<Rightarrow> bool" where
  "has_register self register =
     (case map_of (regs self) (reg_name register) of
        None \<Rightarrow> False
      | Some registers \<Rightarrow>
          if reg_size registers = reg_size register then
            (if (reg_kind register = Quantum \<and> reg_kind registers = Quantum) \<or>
                (reg_kind register = Classical \<and> reg_kind registers = Classical)
             then True else False)
          else False)"

text \<open>
  The register map of a circuit built through \<^verbatim>\<open>add\<close>: every register is stored
  under its own name, and no name is stored twice.
\<close>

definition regs_ok :: "(string \<times> register) list \<Rightarrow> bool" where
  "regs_ok rs = (distinct (map fst rs) \<and> list_all (\<lambda>(k, r). k = reg_name r) rs)"

text \<open>
  A value handed to \<^verbatim>\<open>add\<close> is an instance of \<^verbatim>\<open>Register\<close> or it is not.
\<close>

datatype pyval = Reg register | NotReg

text \<open>
  \<^verbatim>\<open>QuantumCircuit.add\<close>. The loop writes into \<^verbatim>\<open>self.regs\<close> as it goes, so the
  result carries the circuit as the call leaves it, also when it raises.
\<close>

fun add :: "'p circuit \<Rightarrow> pyval list \<Rightarrow> (error + unit) \<times> 'p circuit" where
  "add self [] = (Inr (), self)"
| "add self (NotReg # rest) = (Inl ExpectedRegisterError, self)"
| "add self (Reg register # rest) =
     (if reg_name register \<notin> fst ` set (regs self)
      then add (self\<lparr>regs := regs self @ [(reg_name register, register)]\<rparr>) rest
      else (Inl DuplicateRegisterNameError, self))"

text \<open>\<^verbatim>\<open>QuantumCircuit.__init__\<close>: an empty circuit, then \<^verbatim>\<open>self.add(*regs)\<close>.\<close>

definition QuantumCircuit :: "pyval list \<Rightarrow> error + 'p circuit" where
  "QuantumCircuit rs =
     (case add empty_circuit rs of
        (Inl e, _) \<Rightarrow> Inl e
      | (Inr _, c) \<Rightarrow> Inr c)"

section \<open>Attaching instructions\<close>

text \<open>\<^verbatim>\<open>QuantumCircuit._attach\<close>: append the gate to \<^verbatim>\<open>self.data\<close> and return it.\<close>

definition attach :: "'p circuit \<Rightarrow> 'p instruction \<Rightarrow> (error + 'p instruction) \<times> 'p circuit" where
  "attach self gate = (Inr gate, self\<lparr>data := data self @ [gate]\<rparr>)"

text \<open>
  Modelled from the spec: \<^verbatim>\<open>Register.check_range\<close> (the file \<^verbatim>\<open>_register.py\<close> is not
  in the source). The index must lie in \<open>[0, size)\<close>, else \<open>OutOfRangeBitError\<close>.
\<close>

definition check_range :: "register \<Rightarrow> int \<Rightarrow> error option" where
  "check_range register j =
     (if j < 0 \<or> int (reg_size register) \<le> j then Some OutOfRangeBitError else None)"

text \<open>Checks run one after the other; the first that raises ends the call.\<close>

fun andthen :: "error option \<Rightarrow> error option \<Rightarrow> error option" where
  "andthen (Some e) _ = Some e"
| "andthen None y = y"

text \<open>\<^verbatim>\<open>QuantumCircuit._check_qreg\<close> and \<^verbatim>\<open>QuantumCircuit._check_creg\<close>.\<close>

definition check_qreg :: "'p circuit \<Rightarrow> register \<Rightarrow> error option" where
  "check_qreg self register =
     (if reg_kind register \<noteq> Quantum then Some WrongRegisterKindError
      else if \<not> has_register self register then Some UnknownRegisterError
      else None)"

definition check_creg :: "'p circuit \<Rightarrow> register \<Rightarrow> error option" where
  "check_creg self register =
     (if reg_kind register \<noteq> Classical then Some WrongRegisterKindError
      else if \<not> has_register self register then Some UnknownRegisterError
      else None)"

text \<open>
  An operand of \<^verbatim>\<open>measure\<close> and \<^verbatim>\<open>reset\<close> is a whole register or a tuple
  \<^verbatim>\<open>(register, index)\<close>.
\<close>

datatype operand = WholeRegister register | Bit register int

text \<open>
  \<^verbatim>\<open>QuantumCircuit._check_qubit\<close>: \<^verbatim>\<open>self._check_qreg(qubit[0])\<close>, then
  \<^verbatim>\<open>qubit[0].check_range(qubit[1])\<close>. Indexing a register gives a bit reference
  (\<^verbatim>\<open>q[0]\<close> in \<^verbatim>\<open>cx.py\<close>, \<^verbatim>\<open>qregs[...][...]\<close> in \<^verbatim>\<open>dag_to_circuit.py\<close>), so
  when the operand is a whole register \<^verbatim>\<open>qubit[0]\<close> is a tuple and not an instance of
  \<^verbatim>\<open>QuantumRegister\<close>: \<^verbatim>\<open>_check_qreg\<close> raises "expected quantum register".
\<close>

fun check_qubit :: "'p circuit \<Rightarrow> operand \<Rightarrow> error option" where
  "check_qubit self (Bit register j) = andthen (check_qreg self register) (check_range register j)"
| "check_qubit self (WholeRegister register) = Some WrongRegisterKindError"

text \<open>\<^verbatim>\<open>QuantumCircuit._check_dups\<close>: the set of the qubits is as long as their list.\<close>

definition check_dups :: "bitref list \<Rightarrow> error option" where
  "check_dups qubits =
     (if card (set qubits) \<noteq> length qubits then Some DuplicateQubitArgumentError else None)"

text \<open>
  Modelled from the spec: the classes \<^verbatim>\<open>Measure\<close> and \<^verbatim>\<open>Reset\<close> (the files
  \<^verbatim>\<open>_measure.py\<close> and \<^verbatim>\<open>_reset.py\<close> are not in the source). A measurement holds
  exactly one quantum and one classical bit reference, a reset one quantum bit
  reference; neither has parameters, and a new instruction has no condition.
\<close>

definition Measure :: "bitref \<Rightarrow> bitref \<Rightarrow> 'p instruction" where
  "Measure qubit cbit = \<lparr>name = ''measure'', param = [], arg = [qubit, cbit], control = None\<rparr>"

definition Reset :: "bitref \<Rightarrow> 'p instruction" where
  "Reset qubit = \<lparr>name = ''reset'', param = [], arg = [qubit], control = None\<rparr>"

text \<open>
  The second half of \<^verbatim>\<open>QuantumCircuit.measure\<close>, taken when the operands are not a
  quantum and a classical register of equal length:
  \<^verbatim>\<open>self._check_qubit(qubit)\<close>, \<^verbatim>\<open>self._check_creg(cbit[0])\<close>,
  \<^verbatim>\<open>cbit[0].check_range(cbit[1])\<close>, then \<^verbatim>\<open>self._attach(Measure(qubit, cbit, self))\<close>.
  A whole register as \<^verbatim>\<open>cbit\<close> makes \<^verbatim>\<open>cbit[0]\<close> a tuple, which \<^verbatim>\<open>_check_creg\<close>
  refuses with "expected classical register".
\<close>

fun measure_scalar ::
  "'p circuit \<Rightarrow> operand \<Rightarrow> operand \<Rightarrow> (error + 'p instruction) \<times> 'p circuit" where
  "measure_scalar self (Bit q i) (Bit c j) =
     (case andthen (check_qubit self (Bit q i)) (andthen (check_creg self c) (check_range c j)) of
        Some e \<Rightarrow> (Inl e, self)
      | None \<Rightarrow> attach self (Measure (q, i) (c, j)))"
| "measure_scalar self (Bit q i) (WholeRegister c) =
     (case check_qubit self (Bit q i) of
        Some e \<Rightarrow> (Inl e, self)
      | None \<Rightarrow> (Inl WrongRegisterKindError, self))"
| "measure_scalar self (WholeRegister q) cbit =
     (case check_qubit self (WholeRegister q) of
        Some e \<Rightarrow> (Inl e, self)
      | None \<Rightarrow> (Inl WrongRegisterKindError, self))"

text \<open>
  What a call returns: one attached instruction, or an \<^verbatim>\<open>InstructionSet\<close>, the
  instructions of one broadcast call in the order they were added.
\<close>

datatype 'p attached = Single "'p instruction" | InstructionSet "'p instruction list"

text \<open>
  The loop \<^verbatim>\<open>for i in range(qubit.size): instructions.add(self.measure((qubit, i), (cbit, i)))\<close>.
  The inner call has tuples as operands, so it takes the second half of \<^verbatim>\<open>measure\<close>.
  An exception of the inner call leaves the loop with the instructions attached so far.
\<close>

fun measure_loop ::
  "'p circuit \<Rightarrow> register \<Rightarrow> register \<Rightarrow> nat list \<Rightarrow> 'p instruction list \<Rightarrow>
   (error + 'p instruction list) \<times> 'p circuit" where
  "measure_loop self qubit cbit [] instructions = (Inr instructions, self)"
| "measure_loop self qubit cbit (i # rest) instructions =
     (case measure_scalar self (Bit qubit (int i)) (Bit cbit (int i)) of
        (Inl e, self') \<Rightarrow> (Inl e, self')
      | (Inr g, self') \<Rightarrow> measure_loop self' qubit cbit rest (instructions @ [g]))"

text \<open>\<^verbatim>\<open>QuantumCircuit.measure\<close>.\<close>

fun measure :: "'p circuit \<Rightarrow> operand \<Rightarrow> operand \<Rightarrow> (error + 'p attached) \<times> 'p circuit" where
  "measure self (WholeRegister qubit) (WholeRegister cbit) =
     (if reg_kind qubit = Quantum \<and> reg_kind cbit = Classical \<and> reg_size qubit = reg_size cbit
      then (case measure_loop self qubit cbit [0..<reg_size qubit] [] of
              (Inl e, self') \<Rightarrow> (Inl e, self')
            | (Inr instructions, self') \<Rightarrow> (Inr (InstructionSet instructions), self'))
      else (case measure_scalar self (WholeRegister qubit) (WholeRegister cbit) of
              (Inl e, self') \<Rightarrow> (Inl e, self')
            | (Inr g, self') \<Rightarrow> (Inr (Single g), self')))"
| "measure self qubit cbit =
     (case measure_scalar self qubit cbit of
        (Inl e, self') \<Rightarrow> (Inl e, self')
      | (Inr g, self') \<Rightarrow> (Inr (Single g), self'))"

section \<open>The controlled-NOT gate\<close>

text \<open>
  \<^verbatim>\<open>CnotGate.__init__\<close>: \<^verbatim>\<open>super().__init__("cx", [], [ctl, tgt], circ)\<close>, a gate
  named \<^verbatim>\<open>cx\<close> with no parameters and the operands control, target.
\<close>

definition CnotGate :: "bitref \<Rightarrow> bitref \<Rightarrow> 'p instruction" where
  "CnotGate ctl tgt = \<lparr>name = ''cx'', param = [], arg = [ctl, tgt], control = None\<rparr>"

text \<open>\<^verbatim>\<open>CnotGate.inverse\<close>: \<^verbatim>\<open>return self\<close>.\<close>

definition inverse_cx :: "'p instruction \<Rightarrow> 'p instruction" where
  "inverse_cx self = self"

section \<open>The DAG\<close>

text \<open>
  Modelled from the spec: the class \<^verbatim>\<open>DAGCircuit\<close> (\<^verbatim>\<open>dagcircuit.py\<close> is not in the
  source; the source only calls \<^verbatim>\<open>add_qreg\<close>, \<^verbatim>\<open>add_creg\<close>,
  \<^verbatim>\<open>add_basis_element\<close>, \<^verbatim>\<open>apply_operation_back\<close>, and reads \<^verbatim>\<open>qregs\<close>,
  \<^verbatim>\<open>cregs\<close>, \<^verbatim>\<open>name\<close>, \<^verbatim>\<open>node\<close> and \<^verbatim>\<open>node_nums_in_topological_order\<close>).
  A DAG has a name (none when new), its quantum and classical registers by name, a basis table from names to
  arities (qubits, classical bits, parameters), and a graph: for every declared bit an
  "in" and an "out" terminal, and the operation nodes, whose payload mirrors an
  instruction (name, params, qargs, cargs, condition). Node ids are the positions in
  \<open>nodes\<close>. A bit of the DAG is named by register name and index. \<open>edges\<close> holds the
  dependency edges into operation nodes; \<open>last_writer\<close> gives for each bit the node
  that touched it last (its "in" terminal at first), from which the edge into the bit's
  "out" terminal starts.
\<close>

type_synonym bit = "string \<times> int"

text \<open>The name of a bit reference as the DAG sees it: \<^verbatim>\<open>(x[0].name, x[1])\<close>.\<close>

definition bit_of :: "bitref \<Rightarrow> bit" where
  "bit_of x = (reg_name (fst x), snd x)"

record 'p op =
  op_name :: string
  op_params :: "'p list"
  qargs :: "bitref list"
  cargs :: "bitref list"
  condition :: "(register \<times> int) option"

datatype 'p node = In bit | Out bit | Op "'p op"

record 'p dag =
  dag_name :: "string option"
  qregs :: "(string \<times> register) list"
  cregs :: "(string \<times> register) list"
  basis :: "(string \<times> int \<times> int \<times> int) list"
  nodes :: "'p node list"
  edges :: "(nat \<times> nat) list"
  last_writer :: "(bit \<times> nat) list"

definition DAGCircuit :: "'p dag" where
  "DAGCircuit = \<lparr>dag_name = None, qregs = [], cregs = [], basis = [], nodes = [], edges = [],
                 last_writer = []\<rparr>"

text \<open>
  Modelled from the spec: declaring a register creates the "in"/"out" terminal pair of
  each of its bits; a name already declared is refused with
  \<open>DuplicateRegisterNameError\<close>.
\<close>

fun add_wires :: "'p dag \<Rightarrow> bit list \<Rightarrow> 'p dag" where
  "add_wires d [] = d"
| "add_wires d (b # rest) =
     add_wires (d\<lparr>nodes := nodes d @ [In b, Out b],
                  last_writer := (b, length (nodes d)) # last_writer d\<rparr>) rest"

definition register_bits :: "string \<Rightarrow> nat \<Rightarrow> bit list" where
  "register_bits n sz = map (\<lambda>i. (n, int i)) [0..<sz]"

definition add_qreg :: "'p dag \<Rightarrow> string \<Rightarrow> nat \<Rightarrow> error + 'p dag" where
  "add_qreg d n sz =
     (if n \<in> fst ` set (qregs d) \<or> n \<in> fst ` set (cregs d) then Inl DuplicateRegisterNameError
      else Inr (add_wires
                  (d\<lparr>qregs := qregs d @ [(n, \<lparr>reg_name = n, reg_size = sz, reg_kind = Quantum\<rparr>)]\<rparr>)
                  (register_bits n sz)))"

definition add_creg :: "'p dag \<Rightarrow> string \<Rightarrow> nat \<Rightarrow> error + 'p dag" where
  "add_creg d n sz =
     (if n \<in> fst ` set (qregs d) \<or> n \<in> fst ` set (cregs d) then Inl DuplicateRegisterNameError
      else Inr (add_wires
                  (d\<lparr>cregs := cregs d @ [(n, \<lparr>reg_name = n, reg_size = sz, reg_kind = Classical\<rparr>)]\<rparr>)
                  (register_bits n sz)))"

text \<open>
  Modelled from the spec: a basis element is registered the first time its name is
  seen; declaring a name already present leaves the table as it is (nothing is
  overridden).
\<close>

definition add_basis_element :: "'p dag \<Rightarrow> string \<Rightarrow> int \<Rightarrow> int \<Rightarrow> int \<Rightarrow> 'p dag" where
  "add_basis_element d n number_qubits number_classical number_parameters =
     (if n \<in> fst ` set (basis d) then d
      else d\<lparr>basis := basis d @ [(n, number_qubits, number_classical, number_parameters)]\<rparr>)"

text \<open>
  Modelled from the spec: \<^verbatim>\<open>apply_operation_back(name, qargs, cargs, params, condition)\<close>.
  The operands and the condition arrive by register name; they are resolved to the
  DAG's registers (\<open>UnknownRegisterError\<close> for a name not declared,
  \<open>OutOfRangeBitError\<close> for an index outside the register). The new node gets an
  in-edge from the last writer of every bit it touches, and becomes the last writer of
  these bits. A node touches its quantum and classical operands and, when it has a
  condition, every bit of the condition register, whose current value decides whether
  the operation runs.
\<close>

fun resolve :: "(string \<times> register) list \<Rightarrow> bit list \<Rightarrow> error + bitref list" where
  "resolve rs [] = Inr []"
| "resolve rs ((n, i) # rest) =
     (case map_of rs n of
        None \<Rightarrow> Inl UnknownRegisterError
      | Some r \<Rightarrow>
          (case check_range r i of
             Some e \<Rightarrow> Inl e
           | None \<Rightarrow>
               (case resolve rs rest of
                  Inl e \<Rightarrow> Inl e
                | Inr bs \<Rightarrow> Inr ((r, i) # bs))))"

definition resolve_condition ::
  "(string \<times> register) list \<Rightarrow> (string \<times> int) option \<Rightarrow> error + (register \<times> int) option" where
  "resolve_condition rs cond =
     (case cond of
        None \<Rightarrow> Inr None
      | Some (n, v) \<Rightarrow>
          (case map_of rs n of
             None \<Rightarrow> Inl UnknownRegisterError
           | Some r \<Rightarrow> Inr (Some (r, v))))"

text \<open>
  Modelled from the spec: the bits a condition touches, all those of its register.
\<close>

definition condition_bits :: "(register \<times> int) option \<Rightarrow> bit list" where
  "condition_bits cd =
     (case cd of
        None \<Rightarrow> []
      | Some (r, v) \<Rightarrow> register_bits (reg_name r) (reg_size r))"

definition writer_edges :: "(bit \<times> nat) list \<Rightarrow> bit list \<Rightarrow> nat \<Rightarrow> (nat \<times> nat) list" where
  "writer_edges lw bs m =
     concat (map (\<lambda>b. case map_of lw b of None \<Rightarrow> [] | Some p \<Rightarrow> [(p, m)]) bs)"

definition apply_operation_back ::
  "'p dag \<Rightarrow> string \<Rightarrow> bit list \<Rightarrow> bit list \<Rightarrow> 'p list \<Rightarrow> (string \<times> int) option \<Rightarrow>
   error + 'p dag" where
  "apply_operation_back d n qs cs ps cond =
     (case resolve (qregs d) qs of
        Inl e \<Rightarrow> Inl e
      | Inr qa \<Rightarrow>
          (case resolve (cregs d) cs of
             Inl e \<Rightarrow> Inl e
           | Inr ca \<Rightarrow>
               (case resolve_condition (cregs d) cond of
                  Inl e \<Rightarrow> Inl e
                | Inr cd \<Rightarrow>
                    Inr (d\<lparr>nodes := nodes d @
                               [Op \<lparr>op_name = n, op_params = ps, qargs = qa, cargs = ca,
                                    condition = cd\<rparr>],
                            edges := edges d @
                               writer_edges (last_writer d) (qs @ cs @ condition_bits cd)
                                 (length (nodes d)),
                            last_writer :=
                               map (\<lambda>b. (b, length (nodes d))) (qs @ cs @ condition_bits cd) @
                               last_writer d\<rparr>))))"

text \<open>
  Modelled from the spec: a topological order is any sequence of all the node ids, each
  once, that is consistent with every dependency edge. The edges are those into
  operation nodes and, for each bit, the one from its last writer to its "out" terminal.
\<close>

fun node_id :: "'p node list \<Rightarrow> 'p node \<Rightarrow> nat option" where
  "node_id [] x = None"
| "node_id (y # ys) x = (if y = x then Some 0 else map_option Suc (node_id ys x))"

definition out_edges :: "'p dag \<Rightarrow> (nat \<times> nat) list" where
  "out_edges d =
     concat (map (\<lambda>b. case (map_of (last_writer d) b, node_id (nodes d) (Out b)) of
                         (Some p, Some t) \<Rightarrow> [(p, t)]
                       | _ \<Rightarrow> [])
                 (remdups (map fst (last_writer d))))"

fun precedes :: "nat list \<Rightarrow> nat \<Rightarrow> nat \<Rightarrow> bool" where
  "precedes [] a b = False"
| "precedes (x # xs) a b = (if x = a then b \<in> set xs else precedes xs a b)"

definition is_topological_order :: "'p dag \<Rightarrow> nat list \<Rightarrow> bool" where
  "is_topological_order d ns =
     (distinct ns \<and> list_all (\<lambda>i. i < length (nodes d)) ns \<and>
      list_all (\<lambda>i. i \<in> set ns) [0..<length (nodes d)] \<and>
      list_all (\<lambda>(a, b). precedes ns a b) (edges d @ out_edges d))"

text \<open>
  One order of the nodes: the "in" terminals, then the operation nodes in the order they
  were appended, then the "out" terminals. In a DAG built by the operations above, every
  edge leaves a terminal "in" or an earlier operation node and enters an operation node.
\<close>

definition canonical_order :: "'p dag \<Rightarrow> nat list" where
  "canonical_order d =
     filter (\<lambda>i. case nodes d ! i of In b \<Rightarrow> True | _ \<Rightarrow> False) [0..<length (nodes d)] @
     filter (\<lambda>i. case nodes d ! i of Op n \<Rightarrow> True | _ \<Rightarrow> False) [0..<length (nodes d)] @
     filter (\<lambda>i. case nodes d ! i of Out b \<Rightarrow> True | _ \<Rightarrow> False) [0..<length (nodes d)]"

definition wired :: "'p dag \<Rightarrow> bool" where
  "wired d =
     ((\<forall>e \<in> set (last_writer d).
         snd e < length (nodes d) \<and> (\<forall>c. nodes d ! snd e \<noteq> Out c)) \<and>
      (\<forall>e \<in> set (edges d).
         fst e < snd e \<and> snd e < length (nodes d) \<and> (\<exists>n. nodes d ! snd e = Op n) \<and>
         (\<forall>c. nodes d ! fst e \<noteq> Out c)))"

section \<open>Circuit to DAG\<close>

text \<open>The table \<^verbatim>\<open>builtins\<close> of \<^verbatim>\<open>QuantumCircuit.dag\<close>.\<close>

definition builtins :: "(string \<times> string \<times> int \<times> int \<times> int) list" where
  "builtins =
     [(''U'', (''U'', 1, 0, 3)),
      (''CX'', (''CX'', 2, 0, 0)),
      (''measure'', (''measure'', 1, 1, 0)),
      (''reset'', (''reset'', 1, 0, 0)),
      (''barrier'', (''barrier'', -1, 0, 0))]"

text \<open>
  The first loop of \<^verbatim>\<open>QuantumCircuit.dag\<close>: a quantum register goes to
  \<^verbatim>\<open>add_qreg\<close>, any other to \<^verbatim>\<open>add_creg\<close>, with its name and its length.
\<close>

fun dag_registers :: "'p dag \<Rightarrow> register list \<Rightarrow> error + 'p dag" where
  "dag_registers dagcircuit [] = Inr dagcircuit"
| "dag_registers dagcircuit (register # rest) =
     (case (if reg_kind register = Quantum
            then add_qreg dagcircuit (reg_name register) (reg_size register)
            else add_creg dagcircuit (reg_name register) (reg_size register)) of
        Inl e \<Rightarrow> Inl e
      | Inr dagcircuit' \<Rightarrow> dag_registers dagcircuit' rest)"

text \<open>
  The body of the loop over \<^verbatim>\<open>self.data\<close>, in its four steps: the builtin is
  declared on demand (\<^verbatim>\<open>if instruction.name in builtins\<close>); the operands of a
  measurement are separated (\<^verbatim>\<open>instruction.arg[0]\<close> the qubit,
  \<^verbatim>\<open>instruction.arg[1]\<close> the classical bit, an \<open>IndexError\<close> when there are fewer
  than two), those of any other instruction are all quantum; the condition becomes
  (register name, value); the operation is appended.
\<close>

definition declare_builtin :: "'p dag \<Rightarrow> string \<Rightarrow> 'p dag" where
  "declare_builtin dagcircuit nm =
     (case map_of builtins nm of
        Some (n, nq, nc, np) \<Rightarrow> add_basis_element dagcircuit n nq nc np
      | None \<Rightarrow> dagcircuit)"

definition separate_args :: "'p instruction \<Rightarrow> error + bit list \<times> bit list" where
  "separate_args instruction =
     (if name instruction = ''measure'' then
        (case arg instruction of
           a0 # a1 # _ \<Rightarrow> Inr ([bit_of a0], [bit_of a1])
         | _ \<Rightarrow> Inl IndexError)
      else Inr (map bit_of (arg instruction), []))"

definition dag_control :: "'p instruction \<Rightarrow> (string \<times> int) option" where
  "dag_control instruction =
     (case control instruction of
        None \<Rightarrow> None
      | Some (r, v) \<Rightarrow> Some (reg_name r, v))"

definition dag_instruction :: "'p dag \<Rightarrow> 'p instruction \<Rightarrow> error + 'p dag" where
  "dag_instruction dagcircuit instruction =
     (let dagcircuit1 = declare_builtin dagcircuit (name instruction)
      in case separate_args instruction of
           Inl e \<Rightarrow> Inl e
         | Inr (qs, cs) \<Rightarrow>
             apply_operation_back dagcircuit1 (name instruction) qs cs
               (param instruction) (dag_control instruction))"

fun dag_instructions :: "'p dag \<Rightarrow> 'p instruction list \<Rightarrow> error + 'p dag" where
  "dag_instructions dagcircuit [] = Inr dagcircuit"
| "dag_instructions dagcircuit (instruction # rest) =
     (case dag_instruction dagcircuit instruction of
        Inl e \<Rightarrow> Inl e
      | Inr dagcircuit' \<Rightarrow> dag_instructions dagcircuit' rest)"

text \<open>
  \<^verbatim>\<open>QuantumCircuit.dag\<close>. The class variable \<^verbatim>\<open>definitions\<close> is \<^verbatim>\<open>{}\<close> in the
  source and nothing there writes to it, so the loop over the user gate definitions has
  no round.
\<close>

definition dag :: "'p circuit \<Rightarrow> error + 'p dag" where
  "dag self =
     (case dag_registers DAGCircuit (map snd (regs self)) of
        Inl e \<Rightarrow> Inl e
      | Inr dagcircuit \<Rightarrow> dag_instructions dagcircuit (data self))"

section \<open>DAG to circuit\<close>

text \<open>
  Modelled from the spec: the class \<^verbatim>\<open>QuantumCircuit\<close> that \<^verbatim>\<open>dag_to_circuit.py\<close>
  imports from \<^verbatim>\<open>qiskit.circuit\<close>. That module is not in the source, and the
  constructor of \<^verbatim>\<open>_quantumcircuit.py\<close> is not the one called here: it takes no
  \<^verbatim>\<open>name\<close> keyword. From the spec: a circuit is a register map in insertion order
  and an instruction sequence; a new circuit over registers has no instructions and
  attaches the registers one by one, in the order given, each under its name, refusing a
  name already present with \<open>DuplicateRegisterNameError\<close>; attaching an instruction
  appends it to the sequence. The circuit of the data model has no field for a name: the
  keyword is accepted and not kept.
\<close>

fun attach_registers ::
  "(string \<times> register) list \<Rightarrow> register list \<Rightarrow> error + (string \<times> register) list" where
  "attach_registers acc [] = Inr acc"
| "attach_registers acc (r # rest) =
     (if reg_name r \<in> fst ` set acc then Inl DuplicateRegisterNameError
      else attach_registers (acc @ [(reg_name r, r)]) rest)"

text \<open>
  Modelled from the spec: the constructor of that class,
  \<^verbatim>\<open>QuantumCircuit(*registers, name=name)\<close>.
\<close>

definition new_circuit :: "register list \<Rightarrow> string option \<Rightarrow> error + 'p circuit" where
  "new_circuit rs nm =
     (case attach_registers [] rs of
        Inl e \<Rightarrow> Inl e
      | Inr m \<Rightarrow> Inr \<lparr>data = [], regs = m\<rparr>)"

text \<open>Modelled from the spec: \<^verbatim>\<open>_attach\<close> of that class.\<close>

definition attach_instruction :: "'p circuit \<Rightarrow> 'p instruction \<Rightarrow> 'p circuit" where
  "attach_instruction circuit inst = circuit\<lparr>data := data circuit @ [inst]\<rparr>"

text \<open>
  Storing into an \<^verbatim>\<open>OrderedDict\<close>: a key already present keeps its place and gets
  the new value, a new key goes to the end.
\<close>

fun od_set :: "('k \<times> 'v) list \<Rightarrow> 'k \<Rightarrow> 'v \<Rightarrow> ('k \<times> 'v) list" where
  "od_set [] k v = [(k, v)]"
| "od_set ((k', v') # rest) k v =
     (if k' = k then (k, v) # rest else (k', v') # od_set rest k v)"

text \<open>
  The two loops that open \<^verbatim>\<open>dag_to_circuit\<close>: a fresh \<^verbatim>\<open>QuantumRegister\<close>
  (\<^verbatim>\<open>ClassicalRegister\<close>) of the same size and name for every register of
  \<^verbatim>\<open>dag.qregs\<close> (\<^verbatim>\<open>dag.cregs\<close>), stored under its name.
\<close>

fun fresh_registers :: "kind \<Rightarrow> register list \<Rightarrow> (string \<times> register) list \<Rightarrow>
    (string \<times> register) list" where
  "fresh_registers k [] acc = acc"
| "fresh_registers k (reg # rest) acc =
     fresh_registers k rest
       (od_set acc (reg_name reg) \<lparr>reg_name = reg_name reg, reg_size = reg_size reg, reg_kind = k\<rparr>)"

text \<open>
  \<^verbatim>\<open>qubits.append(qregs[qubit[0].name][qubit[1]])\<close>: the dictionary lookup raises
  \<open>KeyError\<close> for a missing name; indexing the register gives the bit reference after
  the range check.
\<close>

fun lookup_bits :: "(string \<times> register) list \<Rightarrow> bitref list \<Rightarrow> error + bitref list" where
  "lookup_bits rs [] = Inr []"
| "lookup_bits rs ((r, i) # rest) =
     (case map_of rs (reg_name r) of
        None \<Rightarrow> Inl KeyError
      | Some r' \<Rightarrow>
          (case check_range r' i of
             Some e \<Rightarrow> Inl e
           | None \<Rightarrow>
               (case lookup_bits rs rest of
                  Inl e \<Rightarrow> Inl e
                | Inr bs \<Rightarrow> Inr ((r', i) # bs))))"

text \<open>
  \<^verbatim>\<open>duplicate_instruction\<close>: a new instruction of the same class, built from
  \<^verbatim>\<open>[inst.qargs]\<close> for a barrier (which has no parameters), from
  \<^verbatim>\<open>inst.params + [inst.qargs]\<close> for a snapshot, and from
  \<^verbatim>\<open>inst.params + inst.qargs + inst.cargs\<close> otherwise. The class fixes the name.
\<close>

definition duplicate_instruction :: "'p op \<Rightarrow> 'p instruction" where
  "duplicate_instruction inst =
     (if op_name inst = ''barrier'' then
        \<lparr>name = op_name inst, param = [], arg = qargs inst, control = None\<rparr>
      else if op_name inst = ''snapshot'' then
        \<lparr>name = op_name inst, param = op_params inst, arg = qargs inst, control = None\<rparr>
      else
        \<lparr>name = op_name inst, param = op_params inst, arg = qargs inst @ cargs inst,
          control = None\<rparr>)"

text \<open>
  The loop over the nodes in the order \<open>ns\<close>. Only operation nodes do anything: the
  bit references are looked up (the lists \<^verbatim>\<open>qubits\<close> and \<^verbatim>\<open>clbits\<close> are not used
  afterwards, but the lookups can raise), the condition is copied, the instruction is
  duplicated, gets the condition, and is attached (\<^verbatim>\<open>circuit._attach(inst)\<close>, on the
  circuit class modelled above).
\<close>

fun attach_nodes ::
  "'p dag \<Rightarrow> (string \<times> register) list \<Rightarrow> (string \<times> register) list \<Rightarrow> nat list \<Rightarrow>
   'p circuit \<Rightarrow> error + 'p circuit" where
  "attach_nodes d qs cs [] circuit = Inr circuit"
| "attach_nodes d qs cs (node # rest) circuit =
     (if length (nodes d) \<le> node then Inl KeyError
      else
        (case nodes d ! node of
           Op n \<Rightarrow>
             (case lookup_bits qs (qargs n) of
                Inl e \<Rightarrow> Inl e
              | Inr qubits \<Rightarrow>
                  (case lookup_bits cs (cargs n) of
                     Inl e \<Rightarrow> Inl e
                   | Inr clbits \<Rightarrow>
                       attach_nodes d qs cs rest
                         (attach_instruction circuit
                            ((duplicate_instruction n)\<lparr>control := condition n\<rparr>))))
         | _ \<Rightarrow> attach_nodes d qs cs rest circuit))"

text \<open>
  \<^verbatim>\<open>dag_to_circuit\<close>. The order \<open>ns\<close> stands for the result of
  \<^verbatim>\<open>dag.node_nums_in_topological_order()\<close>. \<^verbatim>\<open>name = dag.name or None\<close> turns
  an empty name into none; the circuit is made by
  \<^verbatim>\<open>QuantumCircuit(*qregs.values(), *cregs.values(), name=name)\<close>, the constructor
  of the class imported from \<^verbatim>\<open>qiskit.circuit\<close>.
\<close>

definition dag_to_circuit :: "'p dag \<Rightarrow> nat list \<Rightarrow> error + 'p circuit" where
  "dag_to_circuit d ns =
     (let qs = fresh_registers Quantum (map snd (qregs d)) [];
          cs = fresh_registers Classical (map snd (cregs d)) [];
          nm = (case dag_name d of
                  None \<Rightarrow> None
                | Some n \<Rightarrow> if n = [] then None else Some n)
      in case new_circuit (map snd qs @ map snd cs) nm of
           Inl e \<Rightarrow> Inl e
         | Inr circuit \<Rightarrow> attach_nodes d qs cs ns circuit)"

text \<open>
  The bits of an instruction are its operands and, when it has a condition, every bit of
  the condition register. Two instructions share a bit when a bit of the one names the
  same register and index as a bit of the other; a chain is a sequence in which every
  instruction shares a bit with the next.
\<close>

definition touched :: "'p instruction \<Rightarrow> bit list" where
  "touched g = map bit_of (arg g) @ condition_bits (control g)"

fun chain :: "'p instruction list \<Rightarrow> bool" where
  "chain [] = True"
| "chain [g] = True"
| "chain (g # h # rest) = (list_ex (\<lambda>b. b \<in> set (touched h)) (touched g) \<and> chain (h # rest))"

text \<open>
  For stating what the conversions do: the payloads of the operation nodes of a node
  list in their order, the registers of one kind of a register map, and node lists
  without operation nodes.
\<close>

fun ops_of :: "'p node list \<Rightarrow> 'p op list" where
  "ops_of [] = []"
| "ops_of (Op n # rest) = n # ops_of rest"
| "ops_of (In b # rest) = ops_of rest"
| "ops_of (Out b # rest) = ops_of rest"

definition terminals :: "'p node list \<Rightarrow> bool" where
  "terminals ts = list_all (\<lambda>t. case t of Op n \<Rightarrow> False | _ \<Rightarrow> True) ts"

text \<open>
  What the loop of \<^verbatim>\<open>QuantumCircuit.dag\<close> makes of one instruction: a node with
  the instruction's name and parameters; for a measurement the first operand as the
  only quantum argument and the second as the only classical one, for any other
  instruction all operands as quantum arguments and no classical one; and the condition
  with the same register name and value.
\<close>

definition converted :: "'p instruction \<Rightarrow> 'p op \<Rightarrow> bool" where
  "converted g n =
     (op_name n = name g \<and> op_params n = param g \<and>
      (if name g = ''measure''
       then 2 \<le> length (arg g) \<and> map bit_of (qargs n) = [bit_of (arg g ! 0)] \<and>
            map bit_of (cargs n) = [bit_of (arg g ! 1)]
       else map bit_of (qargs n) = map bit_of (arg g) \<and> cargs n = []) \<and>
      map_option (\<lambda>(r, v). (reg_name r, v)) (condition n) =
        map_option (\<lambda>(r, v). (reg_name r, v)) (control g))"

text \<open>
  A register table in which every register stands under its own name, and a basis table
  that holds each name once, with the arity the table \<^verbatim>\<open>builtins\<close> gives it.
\<close>

definition keyed :: "(string \<times> register) list \<Rightarrow> bool" where
  "keyed rs = (\<forall>p \<in> set rs. fst p = reg_name (snd p))"

definition basis_ok :: "(string \<times> int \<times> int \<times> int) list \<Rightarrow> bool" where
  "basis_ok b = (distinct (map fst b) \<and> (\<forall>e \<in> set b. map_of builtins (fst e) = Some e))"

text \<open>
  For the round trip: the node that a well-formed instruction becomes (its operands
  resolve to themselves), the instruction that \<^verbatim>\<open>dag_to_circuit\<close> attaches for a node,
  and the fact that a barrier carries no parameters (its class has none).
\<close>

definition payload :: "'p instruction \<Rightarrow> 'p op" where
  "payload g =
     \<lparr>op_name = name g, op_params = param g,
      qargs = (if name g = ''measure'' then take 1 (arg g) else arg g),
      cargs = (if name g = ''measure'' then take 1 (drop 1 (arg g)) else []),
      condition = control g\<rparr>"

definition barrier_ok :: "'p instruction \<Rightarrow> bool" where
  "barrier_ok g = (if name g = ''barrier'' then param g = [] else True)"

definition reattached :: "'p op \<Rightarrow> 'p instruction" where
  "reattached n = (duplicate_instruction n)\<lparr>control := condition n\<rparr>"

definition of_kind :: "kind \<Rightarrow> (string \<times> register) list \<Rightarrow> (string \<times> register) list" where
  "of_kind k rs = filter (\<lambda>p. reg_kind (snd p) = k) rs"

section \<open>Replaying instructions: combine and extend\<close>

text \<open>
  Modelled from the spec: the methods \<^verbatim>\<open>reapply\<close> and \<^verbatim>\<open>_modifiers\<close> of the
  instruction classes (\<^verbatim>\<open>_instruction.py\<close>, \<^verbatim>\<open>_gate.py\<close>, \<^verbatim>\<open>_measure.py\<close>,
  \<^verbatim>\<open>_reset.py\<close> and the decorator \<^verbatim>\<open>_op_expand\<close> are not in the source; \<^verbatim>\<open>cx.py\<close>
  shows the shape \<^verbatim>\<open>self._modifiers(circ.cx(self.qargs[0], self.qargs[1]))\<close>).
  \<^verbatim>\<open>reapply\<close> clones the instruction's name, parameters and condition, rebinds its
  operands onto the registers of matching name and size of the target circuit, and
  attaches the clone there. A measurement goes through the target's \<^verbatim>\<open>measure\<close>
  with its two bit references. Any other instruction has quantum operands only: each
  must pass \<^verbatim>\<open>_check_qubit\<close>, the list must pass \<^verbatim>\<open>_check_dups\<close>, and the clone is
  attached. A condition must name a classical register of the target.
\<close>

fun check_qubits :: "'p circuit \<Rightarrow> bitref list \<Rightarrow> error option" where
  "check_qubits self [] = None"
| "check_qubits self ((q, i) # rest) =
     andthen (check_qubit self (Bit q i)) (check_qubits self rest)"

definition rebind :: "'p instruction \<Rightarrow> 'p circuit \<Rightarrow> error option" where
  "rebind gate circ =
     andthen
       (if name gate = ''measure'' then
          (case arg gate of
             [(q, i), (c, j)] \<Rightarrow>
               andthen (check_qubit circ (Bit q i)) (andthen (check_creg circ c) (check_range c j))
           | _ \<Rightarrow> Some WrongRegisterKindError)
        else andthen (check_qubits circ (arg gate)) (check_dups (arg gate)))
       (case control gate of
          None \<Rightarrow> None
        | Some (c, v) \<Rightarrow> check_creg circ c)"

definition reapply :: "'p instruction \<Rightarrow> 'p circuit \<Rightarrow> (error + 'p instruction) \<times> 'p circuit" where
  "reapply gate circ =
     (case rebind gate circ of
        Some e \<Rightarrow> (Inl e, circ)
      | None \<Rightarrow> attach circ gate)"

text \<open>
  The loop \<^verbatim>\<open>for gate in ...: gate.reapply(circuit)\<close>; an exception leaves it.
\<close>

fun reapply_all :: "'p instruction list \<Rightarrow> 'p circuit \<Rightarrow> (error + unit) \<times> 'p circuit" where
  "reapply_all [] circ = (Inr (), circ)"
| "reapply_all (gate # rest) circ =
     (case reapply gate circ of
        (Inl e, circ') \<Rightarrow> (Inl e, circ')
      | (Inr _, circ') \<Rightarrow> reapply_all rest circ')"

text \<open>
  The loop \<^verbatim>\<open>for register in rhs.regs.values(): if not self.has_register(register): raise\<close>
  that opens \<^verbatim>\<open>combine\<close> and \<^verbatim>\<open>extend\<close>.
\<close>

fun check_compatible :: "'p circuit \<Rightarrow> register list \<Rightarrow> error option" where
  "check_compatible self [] = None"
| "check_compatible self (register # rest) =
     (if \<not> has_register self register then Some IncompatibleRegistersError
      else check_compatible self rest)"

text \<open>
  \<^verbatim>\<open>QuantumCircuit.combine\<close>. The result carries, after the outcome, the receiver and
  the operand as the call leaves them (two distinct objects): the body writes only into
  the new circuit.
\<close>

definition combine ::
  "'p circuit \<Rightarrow> 'p circuit \<Rightarrow> (error + 'p circuit) \<times> 'p circuit \<times> 'p circuit" where
  "combine self rhs =
     (case check_compatible self (map snd (regs rhs)) of
        Some e \<Rightarrow> (Inl e, self, rhs)
      | None \<Rightarrow>
          (case QuantumCircuit (map (\<lambda>register. Reg register) (map snd (regs self))) of
             Inl e \<Rightarrow> (Inl e, self, rhs)
           | Inr circuit \<Rightarrow>
               (case reapply_all (data self @ data rhs) circuit of
                  (Inl e, _) \<Rightarrow> (Inl e, self, rhs)
                | (Inr _, circuit') \<Rightarrow> (Inr circuit', self, rhs))))"

text \<open>
  \<^verbatim>\<open>QuantumCircuit.extend\<close>, for an operand that is not the receiver itself. The
  replay writes into \<^verbatim>\<open>self\<close>; the value returned on success is \<^verbatim>\<open>self\<close>.
\<close>

definition extend ::
  "'p circuit \<Rightarrow> 'p circuit \<Rightarrow> (error + unit) \<times> 'p circuit \<times> 'p circuit" where
  "extend self rhs =
     (case check_compatible self (map snd (regs rhs)) of
        Some e \<Rightarrow> (Inl e, self, rhs)
      | None \<Rightarrow>
          (case reapply_all (data rhs) self of
             (Inl e, self') \<Rightarrow> (Inl e, self', rhs)
           | (Inr _, self') \<Rightarrow> (Inr (), self', rhs)))"

text \<open>
  The invariant of the data model: every bit reference and every condition of an
  instruction of the circuit resolves to a register of the circuit. It is what the
  checks of \<^verbatim>\<open>measure\<close>, \<^verbatim>\<open>reset\<close> and the gate methods establish before they
  attach, and no operation removes a register.
\<close>

definition instruction_ok :: "'p circuit \<Rightarrow> 'p instruction \<Rightarrow> bool" where
  "instruction_ok self gate = (rebind gate self = None)"

definition circuit_ok :: "'p circuit \<Rightarrow> bool" where
  "circuit_ok self = (regs_ok (regs self) \<and> list_all (instruction_ok self) (data self))"

section \<open>A small circuit for concrete checks\<close>

text \<open>
  A quantum register \<^verbatim>\<open>q[2]\<close>, classical registers \<^verbatim>\<open>c[2]\<close> and \<^verbatim>\<open>c[3]\<close>.
\<close>

definition ex_q :: register where
  "ex_q = \<lparr>reg_name = ''q'', reg_size = 2, reg_kind = Quantum\<rparr>"

definition ex_c :: register where
  "ex_c = \<lparr>reg_name = ''c'', reg_size = 2, reg_kind = Classical\<rparr>"

definition ex_c3 :: register where
  "ex_c3 = \<lparr>reg_name = ''c'', reg_size = 3, reg_kind = Classical\<rparr>"

definition ex_regs :: "(string \<times> register) list" where
  "ex_regs = [(''q'', ex_q), (''c'', ex_c)]"

definition ex_cx :: "unit circuit" where
  "ex_cx = \<lparr>data = [CnotGate (ex_q, 0) (ex_q, 1)], regs = ex_regs\<rparr>"

definition ex_m :: "unit circuit" where
  "ex_m = \<lparr>data = [Measure (ex_q, 1) (ex_c, 1)], regs = ex_regs\<rparr>"

text \<open>
  A circuit that declares \<^verbatim>\<open>c[1]\<close> before \<^verbatim>\<open>q[1]\<close>, resets the qubit and then
  measures it under a condition; the DAG after its registers are declared, and the DAG
  of the whole circuit.
\<close>

definition ex_q1 :: register where
  "ex_q1 = \<lparr>reg_name = ''q'', reg_size = 1, reg_kind = Quantum\<rparr>"

definition ex_c1 :: register where
  "ex_c1 = \<lparr>reg_name = ''c'', reg_size = 1, reg_kind = Classical\<rparr>"

definition ex_chain :: "unit circuit" where
  "ex_chain = \<lparr>data = [Reset (ex_q1, 0), (Measure (ex_q1, 0) (ex_c1, 0))\<lparr>control := Some (ex_c1, 1)\<rparr>],
               regs = [(''c'', ex_c1), (''q'', ex_q1)]\<rparr>"

definition ex_dag0 :: "unit dag" where
  "ex_dag0 = \<lparr>dag_name = None, qregs = [(''q'', ex_q1)], cregs = [(''c'', ex_c1)], basis = [],
     nodes = [In (''c'', 0), Out (''c'', 0), In (''q'', 0), Out (''q'', 0)],
     edges = [],
     last_writer = [((''q'', 0), 2), ((''c'', 0), 0)]\<rparr>"

definition ex_dag :: "unit dag" where
  "ex_dag = \<lparr>dag_name = None, qregs = [(''q'', ex_q1)], cregs = [(''c'', ex_c1)],
     basis = [(''reset'', 1, 0, 0), (''measure'', 1, 1, 0)],
     nodes = [In (''c'', 0), Out (''c'', 0), In (''q'', 0), Out (''q'', 0),
              Op \<lparr>op_name = ''reset'', op_params = [], qargs = [(ex_q1, 0)], cargs = [],
                   condition = None\<rparr>,
              Op \<lparr>op_name = ''measure'', op_params = [], qargs = [(ex_q1, 0)], cargs = [(ex_c1, 0)],
                   condition = Some (ex_c1, 1)\<rparr>],
     edges = [(2, 4), (4, 5), (0, 5), (0, 5)],
     last_writer = [((''q'', 0), 5), ((''c'', 0), 5), ((''c'', 0), 5), ((''q'', 0), 4),
                    ((''q'', 0), 2), ((''c'', 0), 0)]\<rparr>"

text \<open>
  A circuit over \<^verbatim>\<open>c[1]\<close> and \<^verbatim>\<open>q[2]\<close> that measures the first qubit into the
  classical bit and then resets the second qubit under a condition on the classical
  register: the two instructions have no operand in common and are linked by the bit of
  the condition register. The DAG after its registers are declared, and its DAG.
\<close>

definition ex_cond :: "unit circuit" where
  "ex_cond = \<lparr>data = [Measure (ex_q, 0) (ex_c1, 0),
                        (Reset (ex_q, 1))\<lparr>control := Some (ex_c1, 1)\<rparr>],
              regs = [(''c'', ex_c1), (''q'', ex_q)]\<rparr>"

definition ex_cond_dag0 :: "unit dag" where
  "ex_cond_dag0 = \<lparr>dag_name = None, qregs = [(''q'', ex_q)], cregs = [(''c'', ex_c1)], basis = [],
     nodes = [In (''c'', 0), Out (''c'', 0), In (''q'', 0), Out (''q'', 0),
              In (''q'', 1), Out (''q'', 1)],
     edges = [],
     last_writer = [((''q'', 1), 4), ((''q'', 0), 2), ((''c'', 0), 0)]\<rparr>"

definition ex_cond_dag :: "unit dag" where
  "ex_cond_dag = \<lparr>dag_name = None, qregs = [(''q'', ex_q)], cregs = [(''c'', ex_c1)],
     basis = [(''measure'', 1, 1, 0), (''reset'', 1, 0, 0)],
     nodes = [In (''c'', 0), Out (''c'', 0), In (''q'', 0), Out (''q'', 0),
              In (''q'', 1), Out (''q'', 1),
              Op \<lparr>op_name = ''measure'', op_params = [], qargs = [(ex_q, 0)],
                   cargs = [(ex_c1, 0)], condition = None\<rparr>,
              Op \<lparr>op_name = ''reset'', op_params = [], qargs = [(ex_q, 1)], cargs = [],
                   condition = Some (ex_c1, 1)\<rparr>],
     edges = [(2, 6), (0, 6), (4, 7), (6, 7)],
     last_writer = [((''q'', 1), 7), ((''c'', 0), 7), ((''q'', 0), 6), ((''c'', 0), 6),
                    ((''q'', 1), 4), ((''q'', 0), 2), ((''c'', 0), 0)]\<rparr>"

section \<open>Properties\<close>

lemma map_of_regs_ok:
  assumes "regs_ok rs"
  shows "map_of rs n = Some r \<longleftrightarrow> (r \<in> snd ` set rs \<and> reg_name r = n)"
proof
  assume "map_of rs n = Some r"
  then have "(n, r) \<in> set rs" by (rule map_of_SomeD)
  moreover from this assms have "n = reg_name r"
    by (auto simp: regs_ok_def list_all_iff)
  ultimately show "r \<in> snd ` set rs \<and> reg_name r = n" by force
next
  assume "r \<in> snd ` set rs \<and> reg_name r = n"
  then obtain k where "(k, r) \<in> set rs" and n: "reg_name r = n" by auto
  moreover from this assms have "k = reg_name r"
    by (auto simp: regs_ok_def list_all_iff)
  ultimately have "(n, r) \<in> set rs" by simp
  with assms show "map_of rs n = Some r"
    by (simp add: regs_ok_def)
qed

text \<open>
  C8. \<^verbatim>\<open>has_register(r2)\<close> is true exactly when some register held by the circuit
  has the name, the size and the kind of \<open>r2\<close>. Only these three fields are read.
\<close>

theorem has_register_iff:
  assumes "regs_ok (regs C)"
  shows "has_register C r2 \<longleftrightarrow>
         (\<exists>r1 \<in> snd ` set (regs C).
            reg_name r1 = reg_name r2 \<and> reg_size r1 = reg_size r2 \<and> reg_kind r1 = reg_kind r2)"
proof
  assume "has_register C r2"
  then obtain r1 where m: "map_of (regs C) (reg_name r2) = Some r1"
    and s: "reg_size r1 = reg_size r2" and k: "reg_kind r1 = reg_kind r2"
    by (auto simp: has_register_def split: option.splits if_splits)
  from m assms have "r1 \<in> snd ` set (regs C) \<and> reg_name r1 = reg_name r2"
    by (simp add: map_of_regs_ok)
  with s k show "\<exists>r1 \<in> snd ` set (regs C).
      reg_name r1 = reg_name r2 \<and> reg_size r1 = reg_size r2 \<and> reg_kind r1 = reg_kind r2"
    by blast
next
  assume "\<exists>r1 \<in> snd ` set (regs C).
      reg_name r1 = reg_name r2 \<and> reg_size r1 = reg_size r2 \<and> reg_kind r1 = reg_kind r2"
  then obtain r1 where r1: "r1 \<in> snd ` set (regs C)" "reg_name r1 = reg_name r2"
    and s: "reg_size r1 = reg_size r2" and k: "reg_kind r1 = reg_kind r2" by blast
  from r1 assms have "map_of (regs C) (reg_name r2) = Some r1"
    by (simp add: map_of_regs_ok)
  with s k show "has_register C r2"
    by (cases "reg_kind r2") (simp_all add: has_register_def)
qed

theorem has_register_iff_witness:
  "regs_ok (regs (\<lparr>data = [], regs = ex_regs\<rparr> :: unit circuit)) \<and>
   has_register (\<lparr>data = [], regs = ex_regs\<rparr> :: unit circuit)
     \<lparr>reg_name = ''q'', reg_size = 2, reg_kind = Quantum\<rparr> \<and>
   \<not> has_register (\<lparr>data = [], regs = ex_regs\<rparr> :: unit circuit)
     \<lparr>reg_name = ''q'', reg_size = 2, reg_kind = Classical\<rparr> \<and>
   \<not> has_register (\<lparr>data = [], regs = ex_regs\<rparr> :: unit circuit)
     \<lparr>reg_name = ''q'', reg_size = 3, reg_kind = Quantum\<rparr>"
  using has_register_iff [of "\<lparr>data = [], regs = ex_regs\<rparr> :: unit circuit"
      "\<lparr>reg_name = ''q'', reg_size = 2, reg_kind = Quantum\<rparr>"]
    has_register_iff [of "\<lparr>data = [], regs = ex_regs\<rparr> :: unit circuit"
      "\<lparr>reg_name = ''q'', reg_size = 2, reg_kind = Classical\<rparr>"]
    has_register_iff [of "\<lparr>data = [], regs = ex_regs\<rparr> :: unit circuit"
      "\<lparr>reg_name = ''q'', reg_size = 3, reg_kind = Quantum\<rparr>"]
  by (simp add: regs_ok_def ex_regs_def ex_q_def ex_c_def)

subsection \<open>The controlled-NOT gate is its own inverse\<close>

text \<open>
  C9. \<^verbatim>\<open>inverse\<close> of a controlled-NOT gate returns the gate itself: name, parameters
  and operand order are unchanged, and inverting twice gives the gate back.
\<close>

theorem inverse_cx_self:
  "inverse_cx g = g \<and> name (inverse_cx g) = name g \<and> param (inverse_cx g) = param g \<and>
   arg (inverse_cx g) = arg g \<and> inverse_cx (inverse_cx g) = g \<and>
   inverse_cx (CnotGate ctl tgt) = CnotGate ctl tgt \<and>
   name (inverse_cx (CnotGate ctl tgt :: 'p instruction)) = ''cx'' \<and>
   param (inverse_cx (CnotGate ctl tgt :: 'p instruction)) = [] \<and>
   arg (inverse_cx (CnotGate ctl tgt :: 'p instruction)) = [ctl, tgt]"
  by (simp add: inverse_cx_def CnotGate_def)

subsection \<open>Adding registers\<close>

lemma add_accepts:
  "distinct (map reg_name rs) \<Longrightarrow> \<forall>r \<in> set rs. reg_name r \<notin> fst ` set (regs self) \<Longrightarrow>
   add self (map Reg rs @ vs) =
     add (self\<lparr>regs := regs self @ map (\<lambda>r. (reg_name r, r)) rs\<rparr>) vs"
proof (induction rs arbitrary: self)
  case Nil
  then show ?case by simp
next
  case (Cons r rs)
  let ?s = "self\<lparr>regs := regs self @ [(reg_name r, r)]\<rparr>"
  from Cons.prems have "distinct (map reg_name rs)"
    and "\<forall>x \<in> set rs. reg_name x \<notin> fst ` set (regs ?s)"
    by (auto simp: image_iff)
  then have "add ?s (map Reg rs @ vs) =
      add (?s\<lparr>regs := regs ?s @ map (\<lambda>r. (reg_name r, r)) rs\<rparr>) vs"
    by (rule Cons.IH)
  with Cons.prems show ?case by simp
qed

text \<open>
  C7, as the code has it. \<^verbatim>\<open>add\<close> stops at the first value, in argument order, that
  is not a register (\<open>ExpectedRegisterError\<close>) or whose name is already in the register
  map, be it from before the call or from an earlier value of the same call
  (\<open>DuplicateRegisterNameError\<close>). The registers \<open>rs\<close> that precede this value have
  been stored by then and stay: the map is the old one followed by them, and it is the old
  one exactly when the first value is the one refused.
\<close>

theorem add_fails_at_first_offender:
  assumes "distinct (map reg_name rs)"
    and "\<forall>r \<in> set rs. reg_name r \<notin> fst ` set (regs self)"
    and "v = NotReg \<or>
         (\<exists>r. v = Reg r \<and> reg_name r \<in> fst ` set (regs self) \<union> reg_name ` set rs)"
  shows "add self (map Reg rs @ v # rest) =
           (Inl (case v of NotReg \<Rightarrow> ExpectedRegisterError
                         | Reg _ \<Rightarrow> DuplicateRegisterNameError),
            self\<lparr>regs := regs self @ map (\<lambda>r. (reg_name r, r)) rs\<rparr>)"
proof -
  let ?s = "self\<lparr>regs := regs self @ map (\<lambda>r. (reg_name r, r)) rs\<rparr>"
  have step: "add self (map Reg rs @ v # rest) = add ?s (v # rest)"
    using assms(1,2) by (rule add_accepts)
  show ?thesis
  proof (cases v)
    case NotReg
    with step show ?thesis by simp
  next
    case (Reg r)
    with assms(3) have "reg_name r \<in> fst ` set (regs ?s)"
      by (auto simp: image_Un image_image)
    with step Reg show ?thesis by simp
  qed
qed

theorem add_fails_at_first_offender_witness:
  "add (empty_circuit :: unit circuit) [Reg ex_q, Reg ex_c, Reg ex_c3, NotReg] =
     (Inl DuplicateRegisterNameError, \<lparr>data = [], regs = [(''q'', ex_q), (''c'', ex_c)]\<rparr>)"
  using add_fails_at_first_offender [of "[ex_q, ex_c]" "empty_circuit :: unit circuit"
      "Reg ex_c3" "[NotReg]"]
  by (simp add: empty_circuit_def ex_q_def ex_c_def ex_c3_def)

text \<open>
  Without the partial effect the statement fails: \<^verbatim>\<open>add(q, 5)\<close> on an empty circuit raises for the second
  value after the first has been stored.
\<close>

theorem add_partial_effect_counterexample:
  "fst (add (empty_circuit :: unit circuit) [Reg ex_q, NotReg]) = Inl ExpectedRegisterError \<and>
   regs (snd (add (empty_circuit :: unit circuit) [Reg ex_q, NotReg]))
     \<noteq> regs (empty_circuit :: unit circuit)"
  by (simp add: empty_circuit_def ex_q_def)

subsection \<open>Incompatible circuits\<close>

lemma check_compatible_None:
  "check_compatible self rs = None \<longleftrightarrow> (\<forall>r \<in> set rs. has_register self r)"
  by (induction rs) auto

lemma check_compatible_Some:
  "check_compatible self rs = Some e \<Longrightarrow> e = IncompatibleRegistersError"
  by (induction rs) (auto split: if_splits)

text \<open>
  C3. When some register of \<open>C2\<close> does not satisfy \<^verbatim>\<open>has_register\<close> against \<open>C1\<close>,
  \<^verbatim>\<open>C1.combine(C2)\<close> and \<^verbatim>\<open>C1.extend(C2)\<close> both fail with
  \<open>IncompatibleRegistersError\<close>, and both circuits are as they were: the check comes
  before any replay and before any register is added.
\<close>

theorem combine_extend_incompatible:
  assumes "\<exists>r \<in> snd ` set (regs C2). \<not> has_register C1 r"
  shows "combine C1 C2 = (Inl IncompatibleRegistersError, C1, C2) \<and>
         extend C1 C2 = (Inl IncompatibleRegistersError, C1, C2)"
proof -
  from assms have "check_compatible C1 (map snd (regs C2)) \<noteq> None"
    by (simp add: check_compatible_None)
  then obtain e where e: "check_compatible C1 (map snd (regs C2)) = Some e" by blast
  then have "e = IncompatibleRegistersError" by (rule check_compatible_Some)
  with e show ?thesis by (simp add: combine_def extend_def)
qed

theorem combine_extend_incompatible_witness:
  "(\<exists>r \<in> snd ` set (regs (\<lparr>data = [], regs = [(''c'', ex_c3)]\<rparr> :: unit circuit)).
      \<not> has_register (\<lparr>data = [], regs = ex_regs\<rparr> :: unit circuit) r) \<and>
   combine (\<lparr>data = [], regs = ex_regs\<rparr> :: unit circuit) \<lparr>data = [], regs = [(''c'', ex_c3)]\<rparr> =
     (Inl IncompatibleRegistersError, \<lparr>data = [], regs = ex_regs\<rparr>,
      \<lparr>data = [], regs = [(''c'', ex_c3)]\<rparr>) \<and>
   extend (\<lparr>data = [], regs = ex_regs\<rparr> :: unit circuit) \<lparr>data = [], regs = [(''c'', ex_c3)]\<rparr> =
     (Inl IncompatibleRegistersError, \<lparr>data = [], regs = ex_regs\<rparr>,
      \<lparr>data = [], regs = [(''c'', ex_c3)]\<rparr>)"
proof -
  have h: "\<exists>r \<in> snd ` set (regs (\<lparr>data = [], regs = [(''c'', ex_c3)]\<rparr> :: unit circuit)).
      \<not> has_register (\<lparr>data = [], regs = ex_regs\<rparr> :: unit circuit) r"
    by (simp add: has_register_def ex_c3_def ex_c_def ex_q_def ex_regs_def)
  from combine_extend_incompatible [OF h] h show ?thesis by blast
qed

subsection \<open>Measuring whole registers\<close>

lemma has_register_data: "has_register (self\<lparr>data := d\<rparr>) r = has_register self r"
  by (simp add: has_register_def)

lemma measure_loop_ok:
  assumes "reg_kind q = Quantum" "reg_kind c = Classical" "reg_size q = reg_size c"
    and "has_register self q" "has_register self c"
  shows "\<forall>i \<in> set ns. i < reg_size q \<Longrightarrow>
     measure_loop self q c ns acc =
       (Inr (acc @ map (\<lambda>i. Measure (q, int i) (c, int i)) ns),
        self\<lparr>data := data self @ map (\<lambda>i. Measure (q, int i) (c, int i)) ns\<rparr>)"
  using assms(4,5)
proof (induction ns arbitrary: self acc)
  case Nil
  then show ?case by simp
next
  case (Cons i ns)
  let ?g = "Measure (q, int i) (c, int i) :: 'a instruction"
  let ?s = "self\<lparr>data := data self @ [?g]\<rparr>"
  from Cons.prems assms(1-3)
  have one: "measure_scalar self (Bit q (int i)) (Bit c (int i)) = (Inr ?g, ?s)"
    by (simp add: check_qreg_def check_creg_def check_range_def attach_def)
  from Cons.prems have "has_register ?s q" "has_register ?s c" "\<forall>i \<in> set ns. i < reg_size q"
    by (simp_all add: has_register_data)
  then have "measure_loop ?s q c ns (acc @ [?g]) =
       (Inr ((acc @ [?g]) @ map (\<lambda>i. Measure (q, int i) (c, int i)) ns),
        ?s\<lparr>data := data ?s @ map (\<lambda>i. Measure (q, int i) (c, int i)) ns\<rparr>)"
    using Cons.IH by blast
  with one show ?case by simp
qed

text \<open>
  C4. For a quantum register \<open>q\<close> and a classical register \<open>c\<close> of equal size, both of
  the circuit, \<^verbatim>\<open>measure(q, c)\<close> returns an \<^verbatim>\<open>InstructionSet\<close> of exactly \<open>q.size\<close>
  measurements and appends the same ones to the circuit's instructions, in index order;
  the one at index \<open>i\<close> measures bit \<open>(q, i)\<close> into bit \<open>(c, i)\<close>.
\<close>

theorem measure_register_broadcast:
  assumes "reg_kind q = Quantum" "reg_kind c = Classical" "reg_size q = reg_size c"
    and "has_register self q" "has_register self c"
  shows "measure self (WholeRegister q) (WholeRegister c) =
           (Inr (InstructionSet (map (\<lambda>i. Measure (q, int i) (c, int i)) [0..<reg_size q])),
            self\<lparr>data := data self @
                    map (\<lambda>i. Measure (q, int i) (c, int i)) [0..<reg_size q]\<rparr>) \<and>
         length (map (\<lambda>i. Measure (q, int i) (c, int i) :: 'p instruction) [0..<reg_size q])
           = reg_size q \<and>
         (\<forall>i < reg_size q.
            map (\<lambda>i. Measure (q, int i) (c, int i) :: 'p instruction) [0..<reg_size q] ! i
              = \<lparr>name = ''measure'', param = [], arg = [(q, int i), (c, int i)], control = None\<rparr>)"
proof -
  have "measure_loop self q c [0..<reg_size q] [] =
       (Inr ([] @ map (\<lambda>i. Measure (q, int i) (c, int i)) [0..<reg_size q]),
        self\<lparr>data := data self @ map (\<lambda>i. Measure (q, int i) (c, int i)) [0..<reg_size q]\<rparr>)"
    using assms by (intro measure_loop_ok) simp_all
  with assms(1-3) show ?thesis by (simp add: Measure_def)
qed

theorem measure_register_broadcast_witness:
  "reg_kind ex_q = Quantum \<and> reg_kind ex_c = Classical \<and> reg_size ex_q = reg_size ex_c \<and>
   has_register (\<lparr>data = [], regs = ex_regs\<rparr> :: unit circuit) ex_q \<and>
   has_register (\<lparr>data = [], regs = ex_regs\<rparr> :: unit circuit) ex_c \<and>
   measure (\<lparr>data = [], regs = ex_regs\<rparr> :: unit circuit) (WholeRegister ex_q) (WholeRegister ex_c) =
     (Inr (InstructionSet [Measure (ex_q, 0) (ex_c, 0), Measure (ex_q, 1) (ex_c, 1)]),
      \<lparr>data = [Measure (ex_q, 0) (ex_c, 0), Measure (ex_q, 1) (ex_c, 1)], regs = ex_regs\<rparr>)"
proof -
  have h: "reg_kind ex_q = Quantum" "reg_kind ex_c = Classical" "reg_size ex_q = reg_size ex_c"
    "has_register (\<lparr>data = [], regs = ex_regs\<rparr> :: unit circuit) ex_q"
    "has_register (\<lparr>data = [], regs = ex_regs\<rparr> :: unit circuit) ex_c"
    by (simp_all add: ex_q_def ex_c_def ex_regs_def has_register_def)
  have u: "[0..<reg_size ex_q] = [0, 1]"
    by (simp add: ex_q_def upt_rec)
  note m = conjunct1 [OF measure_register_broadcast [OF h, where ?'p = unit]]
  from h m [unfolded u] show ?thesis by (simp del: measure.simps)
qed

text \<open>
  C5, as the code has it. For whole registers of unequal sizes the broadcast branch of
  \<^verbatim>\<open>measure\<close> is not taken, and the call goes on as if the operands were single bits:
  \<^verbatim>\<open>_check_qubit\<close> refuses the register with "expected quantum register". The call
  fails with \<open>WrongRegisterKindError\<close>, and the circuit is as it was: no measurement is
  attached.
\<close>

theorem measure_unequal_sizes:
  assumes "reg_size q \<noteq> reg_size c"
  shows "measure self (WholeRegister q) (WholeRegister c) = (Inl WrongRegisterKindError, self)"
  using assms by simp

theorem measure_unequal_sizes_witness:
  "reg_size ex_q \<noteq> reg_size ex_c3 \<and>
   measure (\<lparr>data = [], regs = [(''q'', ex_q), (''c'', ex_c3)]\<rparr> :: unit circuit)
      (WholeRegister ex_q) (WholeRegister ex_c3)
   = (Inl WrongRegisterKindError, \<lparr>data = [], regs = [(''q'', ex_q), (''c'', ex_c3)]\<rparr>)"
proof -
  have h: "reg_size ex_q \<noteq> reg_size ex_c3" by (simp add: ex_q_def ex_c3_def)
  from measure_unequal_sizes [OF h] h show ?thesis by blast
qed

text \<open>
  Measuring \<^verbatim>\<open>q[2]\<close> into \<^verbatim>\<open>c[3]\<close> does not end in \<open>SizeMismatchError\<close>.
\<close>

theorem measure_unequal_sizes_counterexample:
  "fst (measure (\<lparr>data = [], regs = [(''q'', ex_q), (''c'', ex_c3)]\<rparr> :: unit circuit)
          (WholeRegister ex_q) (WholeRegister ex_c3))
   \<noteq> Inl SizeMismatchError"
  by (simp add: ex_q_def ex_c3_def)

subsection \<open>Combining compatible circuits\<close>

lemma QuantumCircuit_of_regs:
  assumes "regs_ok rs"
  shows "QuantumCircuit (map (\<lambda>register. Reg register) (map snd rs)) =
           Inr \<lparr>data = [], regs = rs\<rparr>"
proof -
  from assms have d: "distinct (map reg_name (map snd rs))" and
    k: "map (\<lambda>r. (reg_name r, r)) (map snd rs) = rs"
  proof -
    from assms have e: "\<forall>p \<in> set rs. fst p = reg_name (snd p)"
      by (auto simp: regs_ok_def list_all_iff)
    then have eq: "map reg_name (map snd rs) = map fst rs" by simp
    show "distinct (map reg_name (map snd rs))"
      unfolding eq using assms by (simp add: regs_ok_def)
    from e have "map (\<lambda>p. (reg_name (snd p), snd p)) rs = map (\<lambda>p. p) rs"
      by (intro map_cong) (auto simp: prod_eq_iff)
    then show "map (\<lambda>r. (reg_name r, r)) (map snd rs) = rs"
      by (simp add: comp_def)
  qed
  have "add (empty_circuit :: 'a circuit) (map Reg (map snd rs) @ []) =
      add ((empty_circuit :: 'a circuit)\<lparr>regs := regs (empty_circuit :: 'a circuit) @
             map (\<lambda>r. (reg_name r, r)) (map snd rs)\<rparr>) []"
    using d by (intro add_accepts) (simp_all add: empty_circuit_def)
  with k show ?thesis
    by (simp add: QuantumCircuit_def empty_circuit_def)
qed

lemma has_register_regs: "regs a = regs b \<Longrightarrow> has_register a = has_register b"
  by (rule ext) (simp add: has_register_def)

lemma rebind_regs:
  assumes "regs a = regs b"
  shows "rebind g a = rebind g b"
proof -
  have h: "has_register a = has_register b" using assms by (rule has_register_regs)
  have q: "check_qreg a = check_qreg b" by (rule ext) (simp add: check_qreg_def h)
  have c: "check_creg a = check_creg b" by (rule ext) (simp add: check_creg_def h)
  have b: "check_qubit a = check_qubit b"
  proof
    fix x show "check_qubit a x = check_qubit b x" by (cases x) (simp_all add: q)
  qed
  have qs: "check_qubits a = check_qubits b"
  proof
    fix xs show "check_qubits a xs = check_qubits b xs"
      by (induction xs) (auto simp: b)
  qed
  show ?thesis unfolding rebind_def q c b qs ..
qed

lemma reapply_all_ok:
  "\<forall>g \<in> set gs. rebind g circ = None \<Longrightarrow>
   reapply_all gs circ = (Inr (), circ\<lparr>data := data circ @ gs\<rparr>)"
proof (induction gs arbitrary: circ)
  case Nil
  then show ?case by simp
next
  case (Cons g gs)
  let ?c = "circ\<lparr>data := data circ @ [g]\<rparr>"
  from Cons.prems have one: "reapply g circ = (Inr g, ?c)"
    by (simp add: reapply_def attach_def)
  have "\<forall>x \<in> set gs. rebind x ?c = None"
  proof
    fix x assume "x \<in> set gs"
    with Cons.prems have "rebind x circ = None" by simp
    moreover have "rebind x ?c = rebind x circ" by (rule rebind_regs) simp
    ultimately show "rebind x ?c = None" by simp
  qed
  then have "reapply_all gs ?c = (Inr (), ?c\<lparr>data := data ?c @ gs\<rparr>)" by (rule Cons.IH)
  with one show ?case by simp
qed

lemma has_register_transfer:
  assumes ok: "regs_ok (regs C2)"
    and comp: "\<forall>r \<in> snd ` set (regs C2). has_register C1 r"
    and h: "has_register C2 r"
  shows "has_register C1 r"
proof -
  from h obtain r' where m: "map_of (regs C2) (reg_name r) = Some r'"
    and s: "reg_size r' = reg_size r" and k: "reg_kind r' = reg_kind r"
    by (auto simp: has_register_def split: option.splits if_splits)
  from m ok have in2: "r' \<in> snd ` set (regs C2)" and n: "reg_name r' = reg_name r"
    by (simp_all add: map_of_regs_ok)
  from in2 comp have "has_register C1 r'" by blast
  with n s k show ?thesis
    by (auto simp: has_register_def split: option.splits if_splits)
qed

lemma check_qubits_transfer:
  assumes "\<And>r. has_register C2 r \<Longrightarrow> has_register C1 r"
  shows "check_qubits C2 qs = None \<Longrightarrow> check_qubits C1 qs = None"
proof (induction qs)
  case Nil then show ?case by simp
next
  case (Cons a qs)
  obtain q i where a: "a = (q, i)" by (cases a)
  with Cons.prems have 1: "andthen (check_qreg C2 q) (check_range q i) = None"
     and 2: "check_qubits C2 qs = None"
    by (auto split: option.splits elim: andthen.elims)
  from 1 have "check_qreg C2 q = None" "check_range q i = None"
    by (auto elim: andthen.elims)
  then have "check_qreg C1 q = None" using assms
    by (auto simp: check_qreg_def split: if_splits)
  with \<open>check_range q i = None\<close> 2 Cons.IH a show ?case by simp
qed


lemma rebind_transfer:
  assumes t: "\<And>r. has_register C2 r \<Longrightarrow> has_register C1 r"
    and ok: "rebind g C2 = None"
  shows "rebind g C1 = None"
proof -
  have q: "\<And>r. check_qreg C2 r = None \<Longrightarrow> check_qreg C1 r = None"
    using t by (auto simp: check_qreg_def split: if_splits)
  have c: "\<And>r. check_creg C2 r = None \<Longrightarrow> check_creg C1 r = None"
    using t by (auto simp: check_creg_def split: if_splits)
  have a: "\<And>x y. andthen x y = None \<longleftrightarrow> x = None \<and> y = None"
    by (metis andthen.simps option.exhaust option.distinct(1))
  from ok have ctl: "(case control g of None \<Rightarrow> None | Some (c, v) \<Rightarrow> check_creg C2 c) = None"
    and ops: "(if name g = ''measure'' then
          (case arg g of
             [(q, i), (c, j)] \<Rightarrow>
               andthen (check_qubit C2 (Bit q i)) (andthen (check_creg C2 c) (check_range c j))
           | _ \<Rightarrow> Some WrongRegisterKindError)
        else andthen (check_qubits C2 (arg g)) (check_dups (arg g))) = None"
    unfolding rebind_def a by simp_all
  from ctl c have ctl1: "(case control g of None \<Rightarrow> None | Some (c, v) \<Rightarrow> check_creg C1 c) = None"
    by (auto split: option.splits)
  have ops1: "(if name g = ''measure'' then
          (case arg g of
             [(q, i), (c, j)] \<Rightarrow>
               andthen (check_qubit C1 (Bit q i)) (andthen (check_creg C1 c) (check_range c j))
           | _ \<Rightarrow> Some WrongRegisterKindError)
        else andthen (check_qubits C1 (arg g)) (check_dups (arg g))) = None"
  proof (cases "name g = ''measure''")
    case True
    with ops obtain q i c' j where ar: "arg g = [(q, i), (c', j)]"
      and ch: "andthen (check_qubit C2 (Bit q i)) (andthen (check_creg C2 c') (check_range c' j)) = None"
      by (auto split: list.splits prod.splits)
    from ch have "check_qreg C2 q = None" "check_range q i = None"
      "check_creg C2 c' = None" "check_range c' j = None"
      by (simp_all add: a)
    with q c have "andthen (check_qubit C1 (Bit q i)) (andthen (check_creg C1 c') (check_range c' j)) = None"
      by (simp add: a)
    with True ar show ?thesis by simp
  next
    case False
    with ops have "check_qubits C2 (arg g) = None" "check_dups (arg g) = None"
      by (simp_all add: a)
    with t have "check_qubits C1 (arg g) = None" "check_dups (arg g) = None"
      by (auto intro: check_qubits_transfer)
    with False show ?thesis by simp
  qed
  from ops1 ctl1 show ?thesis unfolding rebind_def a by simp
qed

text \<open>
  C2. For circuits \<open>C1\<close> and \<open>C2\<close> that satisfy the invariant of the data model, with
  every register of \<open>C2\<close> satisfying \<^verbatim>\<open>has_register\<close> against \<open>C1\<close>,
  \<^verbatim>\<open>C1.combine(C2)\<close> returns a new circuit over the registers of \<open>C1\<close> whose
  instructions are those of \<open>C1\<close> in their order followed by those of \<open>C2\<close> in their
  order, \<open>len(C1) + len(C2)\<close> in all; \<open>C1\<close> and \<open>C2\<close> are as they were.
\<close>

theorem combine_compatible:
  assumes ok1: "circuit_ok C1" and ok2: "circuit_ok C2"
    and comp: "\<forall>r \<in> snd ` set (regs C2). has_register C1 r"
  shows "combine C1 C2 = (Inr \<lparr>data = data C1 @ data C2, regs = regs C1\<rparr>, C1, C2) \<and>
         length (data C1 @ data C2) = length (data C1) + length (data C2)"
proof -
  let ?new = "\<lparr>data = [], regs = regs C1\<rparr> :: 'a circuit"
  from comp have chk: "check_compatible C1 (map snd (regs C2)) = None"
    by (simp add: check_compatible_None)
  from ok1 have "regs_ok (regs C1)" by (simp add: circuit_ok_def)
  then have mk: "QuantumCircuit (map (\<lambda>register. Reg register) (map snd (regs C1))) = Inr ?new"
    by (rule QuantumCircuit_of_regs)
  have t: "\<And>r. has_register C2 r \<Longrightarrow> has_register C1 r"
    using ok2 comp by (auto simp: circuit_ok_def intro: has_register_transfer)
  have "\<forall>g \<in> set (data C1 @ data C2). rebind g ?new = None"
  proof
    fix g assume "g \<in> set (data C1 @ data C2)"
    then consider "g \<in> set (data C1)" | "g \<in> set (data C2)" by auto
    then have "rebind g C1 = None"
    proof cases
      case 1
      with ok1 show ?thesis by (simp add: circuit_ok_def instruction_ok_def list_all_iff)
    next
      case 2
      with ok2 have "rebind g C2 = None"
        by (simp add: circuit_ok_def instruction_ok_def list_all_iff)
      with t show ?thesis by (rule rebind_transfer)
    qed
    moreover have "rebind g ?new = rebind g C1" by (rule rebind_regs) simp
    ultimately show "rebind g ?new = None" by simp
  qed
  then have "reapply_all (data C1 @ data C2) ?new =
      (Inr (), ?new\<lparr>data := data ?new @ (data C1 @ data C2)\<rparr>)"
    by (rule reapply_all_ok)
  with chk mk show ?thesis by (simp add: combine_def)
qed

lemma ex_cx_ok: "circuit_ok ex_cx"
  by (simp add: circuit_ok_def regs_ok_def instruction_ok_def rebind_def ex_cx_def ex_regs_def
      ex_q_def ex_c_def CnotGate_def check_qreg_def check_range_def check_dups_def has_register_def)

lemma ex_m_ok: "circuit_ok ex_m"
  by (simp add: circuit_ok_def regs_ok_def instruction_ok_def rebind_def ex_m_def ex_regs_def
      ex_q_def ex_c_def Measure_def check_qreg_def check_creg_def check_range_def has_register_def)

theorem combine_compatible_witness:
  "circuit_ok ex_cx \<and> circuit_ok ex_m \<and>
   list_all (has_register ex_cx) (map snd (regs ex_m)) \<and>
   combine ex_cx ex_m =
     (Inr \<lparr>data = [CnotGate (ex_q, 0) (ex_q, 1), Measure (ex_q, 1) (ex_c, 1)], regs = ex_regs\<rparr>,
      ex_cx, ex_m)"
proof -
  have h: "\<forall>r \<in> snd ` set (regs ex_m). has_register ex_cx r"
    by (simp add: ex_m_def ex_cx_def ex_regs_def has_register_def ex_q_def ex_c_def)
  from combine_compatible [OF ex_cx_ok ex_m_ok h] have
    "combine ex_cx ex_m = (Inr \<lparr>data = data ex_cx @ data ex_m, regs = regs ex_cx\<rparr>, ex_cx, ex_m)"
    by (rule conjunct1)
  moreover have "data ex_cx @ data ex_m = [CnotGate (ex_q, 0) (ex_q, 1), Measure (ex_q, 1) (ex_c, 1)]"
    "regs ex_cx = ex_regs"
    by (simp_all add: ex_cx_def ex_m_def)
  ultimately show ?thesis using ex_cx_ok ex_m_ok h by (simp add: list_all_iff)
qed

subsection \<open>Registers through the conversions\<close>

lemma attach_nodes_regs:
  "attach_nodes d qs cs ns circuit = Inr C' \<Longrightarrow> regs C' = regs circuit"
proof (induction ns arbitrary: circuit)
  case Nil then show ?case by simp
next
  case (Cons n ns)
  then show ?case
    by (auto simp: attach_instruction_def split: if_splits node.splits sum.splits)
qed

lemma od_set_kind:
  "\<forall>p \<in> set acc. reg_kind (snd p) = k \<Longrightarrow> reg_kind v = k \<Longrightarrow>
   \<forall>p \<in> set (od_set acc n v). reg_kind (snd p) = k"
  by (induction acc n v rule: od_set.induct) auto

lemma fresh_registers_kind:
  "\<forall>p \<in> set acc. reg_kind (snd p) = k \<Longrightarrow>
   \<forall>p \<in> set (fresh_registers k rs acc). reg_kind (snd p) = k"
proof (induction rs arbitrary: acc)
  case Nil then show ?case by simp
next
  case (Cons r rs)
  show ?case unfolding fresh_registers.simps
    by (rule Cons.IH, rule od_set_kind) (use Cons.prems in simp_all)
qed

lemma od_set_new: "n \<notin> fst ` set acc \<Longrightarrow> od_set acc n v = acc @ [(n, v)]"
  by (induction acc n v rule: od_set.induct) auto

lemma fresh_registers_distinct:
  "distinct (map reg_name rs) \<Longrightarrow> \<forall>r \<in> set rs. reg_name r \<notin> fst ` set acc \<Longrightarrow>
   fresh_registers k rs acc =
     acc @ map (\<lambda>r. (reg_name r, \<lparr>reg_name = reg_name r, reg_size = reg_size r, reg_kind = k\<rparr>)) rs"
proof (induction rs arbitrary: acc)
  case Nil then show ?case by simp
next
  case (Cons r rs)
  from Cons.prems have new: "od_set acc (reg_name r) \<lparr>reg_name = reg_name r, reg_size = reg_size r, reg_kind = k\<rparr>
      = acc @ [(reg_name r, \<lparr>reg_name = reg_name r, reg_size = reg_size r, reg_kind = k\<rparr>)]"
    by (intro od_set_new) simp
  from Cons.prems have "distinct (map reg_name rs)"
    "\<forall>x \<in> set rs. reg_name x \<notin> fst ` set (acc @ [(reg_name r, \<lparr>reg_name = reg_name r, reg_size = reg_size r, reg_kind = k\<rparr>)])"
    by (auto simp: image_iff)
  then show ?case unfolding fresh_registers.simps new
    by (subst Cons.IH) simp_all
qed


lemma add_wires_fields:
  "qregs (add_wires d bs) = qregs d \<and> cregs (add_wires d bs) = cregs d \<and>
   basis (add_wires d bs) = basis d \<and> edges (add_wires d bs) = edges d \<and>
   nodes (add_wires d bs) = nodes d @ concat (map (\<lambda>b. [In b, Out b]) bs)"
  by (induction d bs rule: add_wires.induct) simp_all

lemma register_record:
  "\<lparr>reg_name = reg_name r, reg_size = reg_size r, reg_kind = reg_kind r\<rparr> = r"
  by simp

lemma not_Quantum: "k \<noteq> Quantum \<longleftrightarrow> k = Classical"
  by (cases k) simp_all

lemma terminals_wires: "terminals (concat (map (\<lambda>b. [In b, Out b]) bs))"
  by (induction bs) (simp_all add: terminals_def)

lemma terminals_append: "terminals (xs @ ys) \<longleftrightarrow> terminals xs \<and> terminals ys"
  by (simp add: terminals_def)

lemma dag_registers_result:
  "dag_registers d rs = Inr d' \<Longrightarrow>
   qregs d' = qregs d @ map (\<lambda>r. (reg_name r, r)) (filter (\<lambda>r. reg_kind r = Quantum) rs) \<and>
   cregs d' = cregs d @ map (\<lambda>r. (reg_name r, r)) (filter (\<lambda>r. reg_kind r = Classical) rs) \<and>
   basis d' = basis d \<and> edges d' = edges d \<and>
   (\<exists>ts. nodes d' = nodes d @ ts \<and> terminals ts)"
proof (induction rs arbitrary: d)
  case Nil
  then show ?case by (simp add: terminals_def)
next
  case (Cons r rs)
  show ?case
  proof (cases "reg_kind r = Quantum")
    case True
    with Cons.prems obtain d1 where a: "add_qreg d (reg_name r) (reg_size r) = Inr d1"
      and rest: "dag_registers d1 rs = Inr d'"
      by (auto split: sum.splits)
    from True have rr: "\<lparr>reg_name = reg_name r, reg_size = reg_size r, reg_kind = Quantum\<rparr> = r"
      by (metis register_record)
    from a have d1: "qregs d1 = qregs d @ [(reg_name r, r)]" "cregs d1 = cregs d"
      "basis d1 = basis d" "edges d1 = edges d"
      "nodes d1 = nodes d @ concat (map (\<lambda>b. [In b, Out b]) (register_bits (reg_name r) (reg_size r)))"
      by (auto simp: add_qreg_def add_wires_fields rr split: if_splits)
    from Cons.IH [OF rest] obtain ts where
      "qregs d' = qregs d1 @ map (\<lambda>r. (reg_name r, r)) (filter (\<lambda>r. reg_kind r = Quantum) rs)"
      "cregs d' = cregs d1 @ map (\<lambda>r. (reg_name r, r)) (filter (\<lambda>r. reg_kind r = Classical) rs)"
      "basis d' = basis d1" "edges d' = edges d1" "nodes d' = nodes d1 @ ts" "terminals ts"
      by blast
    with d1 True show ?thesis
      by (auto simp: terminals_append terminals_wires)
  next
    case False
    then have cl: "reg_kind r = Classical" by (simp add: not_Quantum)
    with False Cons.prems obtain d1 where a: "add_creg d (reg_name r) (reg_size r) = Inr d1"
      and rest: "dag_registers d1 rs = Inr d'"
      by (auto split: sum.splits)
    from cl have rr: "\<lparr>reg_name = reg_name r, reg_size = reg_size r, reg_kind = Classical\<rparr> = r"
      by (metis register_record)
    from a have d1: "qregs d1 = qregs d" "cregs d1 = cregs d @ [(reg_name r, r)]"
      "basis d1 = basis d" "edges d1 = edges d"
      "nodes d1 = nodes d @ concat (map (\<lambda>b. [In b, Out b]) (register_bits (reg_name r) (reg_size r)))"
      by (auto simp: add_creg_def add_wires_fields rr split: if_splits)
    from Cons.IH [OF rest] obtain ts where
      "qregs d' = qregs d1 @ map (\<lambda>r. (reg_name r, r)) (filter (\<lambda>r. reg_kind r = Quantum) rs)"
      "cregs d' = cregs d1 @ map (\<lambda>r. (reg_name r, r)) (filter (\<lambda>r. reg_kind r = Classical) rs)"
      "basis d' = basis d1" "edges d' = edges d1" "nodes d' = nodes d1 @ ts" "terminals ts"
      by blast
    with d1 cl show ?thesis
      by (auto simp: terminals_append terminals_wires)
  qed
qed

lemma dag_registers_succeeds:
  "distinct (map reg_name rs) \<Longrightarrow>
   \<forall>r \<in> set rs. reg_name r \<notin> fst ` set (qregs d) \<and> reg_name r \<notin> fst ` set (cregs d) \<Longrightarrow>
   \<exists>d'. dag_registers d rs = Inr d'"
proof (induction rs arbitrary: d)
  case Nil then show ?case by simp
next
  case (Cons r rs)
  let ?step = "if reg_kind r = Quantum
            then add_qreg d (reg_name r) (reg_size r)
            else add_creg d (reg_name r) (reg_size r)"
  from Cons.prems have "\<exists>d1. ?step = Inr d1"
    by (simp add: add_qreg_def add_creg_def)
  then obtain d1 where a: "?step = Inr d1" ..
  then have names: "fst ` set (qregs d1) \<union> fst ` set (cregs d1) =
      insert (reg_name r) (fst ` set (qregs d) \<union> fst ` set (cregs d))"
    by (auto simp: add_qreg_def add_creg_def add_wires_fields split: if_splits)
  have "\<forall>x \<in> set rs. reg_name x \<notin> fst ` set (qregs d1) \<and> reg_name x \<notin> fst ` set (cregs d1)"
  proof
    fix x assume x: "x \<in> set rs"
    from Cons.prems(1) have "reg_name r \<notin> reg_name ` set rs" by simp
    with x have "reg_name x \<noteq> reg_name r" by (metis imageI)
    moreover from x Cons.prems(2)
    have "reg_name x \<notin> fst ` set (qregs d) \<union> fst ` set (cregs d)" by simp
    ultimately have "reg_name x \<noteq> reg_name r"
      "reg_name x \<notin> fst ` set (qregs d) \<union> fst ` set (cregs d)" by blast+
    with names have "reg_name x \<notin> fst ` set (qregs d1) \<union> fst ` set (cregs d1)" by simp
    then show "reg_name x \<notin> fst ` set (qregs d1) \<and> reg_name x \<notin> fst ` set (cregs d1)" by simp
  qed
  moreover from Cons.prems have "distinct (map reg_name rs)" by simp
  ultimately obtain d' where "dag_registers d1 rs = Inr d'" using Cons.IH by blast
  with a show ?case by simp
qed

lemma declare_builtin_fields:
  "qregs (declare_builtin d nm) = qregs d \<and> cregs (declare_builtin d nm) = cregs d \<and>
   nodes (declare_builtin d nm) = nodes d \<and> edges (declare_builtin d nm) = edges d \<and>
   last_writer (declare_builtin d nm) = last_writer d"
  by (simp add: declare_builtin_def add_basis_element_def split: option.splits prod.splits)

lemma apply_operation_back_result:
  assumes "apply_operation_back d n qs cs ps cond = Inr d'"
  shows "\<exists>qa ca cd. resolve (qregs d) qs = Inr qa \<and> resolve (cregs d) cs = Inr ca \<and>
           resolve_condition (cregs d) cond = Inr cd \<and>
           d' = d\<lparr>nodes := nodes d @
                       [Op \<lparr>op_name = n, op_params = ps, qargs = qa, cargs = ca, condition = cd\<rparr>],
                   edges := edges d @
                      writer_edges (last_writer d) (qs @ cs @ condition_bits cd) (length (nodes d)),
                   last_writer :=
                      map (\<lambda>b. (b, length (nodes d))) (qs @ cs @ condition_bits cd) @ last_writer d\<rparr>"
  using assms unfolding apply_operation_back_def
  by (auto split: sum.splits)

lemma dag_instruction_result:
  assumes "dag_instruction d g = Inr d'"
  shows "\<exists>qs cs qa ca cd.
           separate_args g = Inr (qs, cs) \<and>
           resolve (qregs d) qs = Inr qa \<and> resolve (cregs d) cs = Inr ca \<and>
           resolve_condition (cregs d) (dag_control g) = Inr cd \<and>
           qregs d' = qregs d \<and> cregs d' = cregs d \<and>
           basis d' = basis (declare_builtin d (name g)) \<and>
           nodes d' = nodes d @
              [Op \<lparr>op_name = name g, op_params = param g, qargs = qa, cargs = ca, condition = cd\<rparr>] \<and>
           edges d' = edges d @
              writer_edges (last_writer d) (qs @ cs @ condition_bits cd) (length (nodes d)) \<and>
           last_writer d' =
              map (\<lambda>b. (b, length (nodes d))) (qs @ cs @ condition_bits cd) @ last_writer d"
proof -
  from assms obtain qs cs where sep: "separate_args g = Inr (qs, cs)"
    and ap: "apply_operation_back (declare_builtin d (name g)) (name g) qs cs (param g)
               (dag_control g) = Inr d'"
    by (auto simp: dag_instruction_def Let_def split: sum.splits)
  from apply_operation_back_result [OF ap] sep show ?thesis
    by (auto simp: declare_builtin_fields)
qed

lemma dag_instructions_regs:
  "dag_instructions d gs = Inr d' \<Longrightarrow> qregs d' = qregs d \<and> cregs d' = cregs d"
proof (induction gs arbitrary: d)
  case Nil then show ?case by simp
next
  case (Cons g gs)
  then obtain d1 where 1: "dag_instruction d g = Inr d1" and 2: "dag_instructions d1 gs = Inr d'"
    by (auto split: sum.splits)
  from dag_instruction_result [OF 1] have "qregs d1 = qregs d" "cregs d1 = cregs d" by auto
  with Cons.IH [OF 2] show ?case by simp
qed

lemma regs_ok_values:
  assumes "regs_ok rs"
  shows "map (\<lambda>r. (reg_name r, r)) (filter (\<lambda>r. reg_kind r = k) (map snd rs)) = of_kind k rs"
proof -
  from assms have e: "\<forall>p \<in> set rs. fst p = reg_name (snd p)"
    by (auto simp: regs_ok_def list_all_iff)
  have "map (\<lambda>r. (reg_name r, r)) (filter (\<lambda>r. reg_kind r = k) (map snd rs)) =
        map (\<lambda>p. (reg_name (snd p), snd p)) (filter (\<lambda>p. reg_kind (snd p) = k) rs)"
    by (simp add: filter_map comp_def)
  also have "\<dots> = map (\<lambda>p. p) (filter (\<lambda>p. reg_kind (snd p) = k) rs)"
    using e by (intro map_cong) (auto simp: prod_eq_iff)
  finally show ?thesis by (simp add: of_kind_def)
qed

lemma dag_regs:
  assumes ok: "regs_ok (regs C)" and d: "dag C = Inr d"
  shows "qregs d = of_kind Quantum (regs C) \<and> cregs d = of_kind Classical (regs C)"
proof -
  from d obtain d0 where 0: "dag_registers DAGCircuit (map snd (regs C)) = Inr d0"
    and 1: "dag_instructions d0 (data C) = Inr d"
    by (auto simp: dag_def split: sum.splits)
  from dag_registers_result [OF 0] have
    "qregs d0 = map (\<lambda>r. (reg_name r, r)) (filter (\<lambda>r. reg_kind r = Quantum) (map snd (regs C)))"
    "cregs d0 = map (\<lambda>r. (reg_name r, r)) (filter (\<lambda>r. reg_kind r = Classical) (map snd (regs C)))"
    by (simp_all add: DAGCircuit_def)
  with ok dag_instructions_regs [OF 1] show ?thesis
    by (simp add: regs_ok_values)
qed

lemma of_kind_facts:
  assumes "regs_ok rs"
  shows "distinct (map reg_name (map snd (of_kind k rs)))"
    and "map (\<lambda>r. (reg_name r, \<lparr>reg_name = reg_name r, reg_size = reg_size r, reg_kind = k\<rparr>))
           (map snd (of_kind k rs)) = of_kind k rs"
proof -
  from assms have e: "\<forall>p \<in> set (of_kind k rs). fst p = reg_name (snd p) \<and> reg_kind (snd p) = k"
    by (auto simp: regs_ok_def list_all_iff of_kind_def)
  then have eq: "map reg_name (map snd (of_kind k rs)) = map fst (of_kind k rs)" by simp
  from assms have "distinct (map fst (of_kind k rs))"
    by (simp add: regs_ok_def of_kind_def distinct_map_filter)
  then show "distinct (map reg_name (map snd (of_kind k rs)))" unfolding eq .
  have "map (\<lambda>p. (reg_name (snd p), \<lparr>reg_name = reg_name (snd p), reg_size = reg_size (snd p), reg_kind = k\<rparr>))
           (of_kind k rs) = map (\<lambda>p. p) (of_kind k rs)"
  proof (intro map_cong refl)
    fix p assume "p \<in> set (of_kind k rs)"
    with e have "fst p = reg_name (snd p)" "reg_kind (snd p) = k" by auto
    then have "\<lparr>reg_name = reg_name (snd p), reg_size = reg_size (snd p), reg_kind = k\<rparr> = snd p"
      by (metis register_record)
    with \<open>fst p = reg_name (snd p)\<close>
    show "(reg_name (snd p), \<lparr>reg_name = reg_name (snd p), reg_size = reg_size (snd p), reg_kind = k\<rparr>) = p"
      by (simp add: prod_eq_iff)
  qed
  then show "map (\<lambda>r. (reg_name r, \<lparr>reg_name = reg_name r, reg_size = reg_size r, reg_kind = k\<rparr>))
           (map snd (of_kind k rs)) = of_kind k rs"
    by (simp add: comp_def)
qed

lemma fresh_of_kind:
  assumes "regs_ok rs"
  shows "fresh_registers k (map snd (of_kind k rs)) [] = of_kind k rs"
  using of_kind_facts [OF assms, of k]
  by (simp add: fresh_registers_distinct)

lemma od_set_keys:
  "\<forall>p \<in> set acc. fst p = reg_name (snd p) \<Longrightarrow> n = reg_name v \<Longrightarrow>
   \<forall>p \<in> set (od_set acc n v). fst p = reg_name (snd p)"
  by (induction acc n v rule: od_set.induct) auto

lemma fresh_registers_keys:
  "\<forall>p \<in> set acc. fst p = reg_name (snd p) \<Longrightarrow>
   \<forall>p \<in> set (fresh_registers k rs acc). fst p = reg_name (snd p)"
proof (induction rs arbitrary: acc)
  case Nil then show ?case by simp
next
  case (Cons r rs)
  show ?case unfolding fresh_registers.simps
    by (rule Cons.IH, rule od_set_keys) (use Cons.prems in simp_all)
qed

lemma keyed_values: "\<forall>p \<in> set xs. fst p = reg_name (snd p) \<Longrightarrow>
   map (\<lambda>r. (reg_name r, r)) (map snd xs) = xs"
  by (induction xs) (auto simp: prod_eq_iff)

lemma attach_registers_result:
  "attach_registers acc rs = Inr m \<Longrightarrow> m = acc @ map (\<lambda>r. (reg_name r, r)) rs"
proof (induction rs arbitrary: acc)
  case Nil then show ?case by simp
next
  case (Cons r rs)
  from Cons.prems have "attach_registers (acc @ [(reg_name r, r)]) rs = Inr m"
    by (simp split: if_splits)
  from Cons.IH [OF this] show ?case by simp
qed

lemma attach_registers_accepts:
  "distinct (map reg_name rs) \<Longrightarrow> \<forall>r \<in> set rs. reg_name r \<notin> fst ` set acc \<Longrightarrow>
   attach_registers acc rs = Inr (acc @ map (\<lambda>r. (reg_name r, r)) rs)"
proof (induction rs arbitrary: acc)
  case Nil then show ?case by simp
next
  case (Cons r rs)
  from Cons.prems have "distinct (map reg_name rs)"
    and "\<forall>x \<in> set rs. reg_name x \<notin> fst ` set (acc @ [(reg_name r, r)])"
    by (auto simp: image_iff)
  then have "attach_registers (acc @ [(reg_name r, r)]) rs =
      Inr ((acc @ [(reg_name r, r)]) @ map (\<lambda>r. (reg_name r, r)) rs)"
    by (rule Cons.IH)
  with Cons.prems show ?case by simp
qed

lemma new_circuit_of_regs:
  assumes "regs_ok rs"
  shows "new_circuit (map snd rs) nm = Inr \<lparr>data = [], regs = rs\<rparr>"
proof -
  from assms have e: "\<forall>p \<in> set rs. fst p = reg_name (snd p)"
    by (auto simp: regs_ok_def list_all_iff)
  then have eq: "map reg_name (map snd rs) = map fst rs" by simp
  from assms have d: "distinct (map reg_name (map snd rs))"
    unfolding eq by (simp add: regs_ok_def)
  from e have k: "map (\<lambda>r. (reg_name r, r)) (map snd rs) = rs"
    by (induction rs) (auto simp: prod_eq_iff)
  from d have "attach_registers [] (map snd rs) = Inr ([] @ map (\<lambda>r. (reg_name r, r)) (map snd rs))"
    by (rule attach_registers_accepts) simp
  with k show ?thesis by (simp add: new_circuit_def)
qed

lemma dag_to_circuit_regs:
  assumes "dag_to_circuit d ns = Inr C'"
  shows "regs C' = fresh_registers Quantum (map snd (qregs d)) [] @
                   fresh_registers Classical (map snd (cregs d)) []"
proof -
  let ?qs = "fresh_registers Quantum (map snd (qregs d)) []"
  let ?cs = "fresh_registers Classical (map snd (cregs d)) []"
  from assms obtain circuit nm where
    mk: "new_circuit (map snd ?qs @ map snd ?cs) nm = Inr circuit"
    and at: "attach_nodes d ?qs ?cs ns circuit = Inr C'"
    by (auto simp: dag_to_circuit_def Let_def split: sum.splits)
  from mk obtain m where m: "attach_registers [] (map snd ?qs @ map snd ?cs) = Inr m"
    and c: "circuit = \<lparr>data = [], regs = m\<rparr>"
    by (auto simp: new_circuit_def split: sum.splits)
  from attach_registers_result [OF m] c
  have "regs circuit = map (\<lambda>r. (reg_name r, r)) (map snd ?qs @ map snd ?cs)"
    by simp
  moreover have "map (\<lambda>r. (reg_name r, r)) (map snd ?qs) = ?qs"
    by (rule keyed_values, rule fresh_registers_keys) simp
  moreover have "map (\<lambda>r. (reg_name r, r)) (map snd ?cs) = ?cs"
    by (rule keyed_values, rule fresh_registers_keys) simp
  ultimately have "regs circuit = ?qs @ ?cs" by simp
  with attach_nodes_regs [OF at] show ?thesis by simp
qed

text \<open>
  C10. The circuit that \<^verbatim>\<open>dag_to_circuit\<close> builds has in its register map first the
  fresh quantum registers, then the fresh classical registers; each group follows the
  DAG's own enumeration (\<^verbatim>\<open>dag.qregs.values()\<close>, \<^verbatim>\<open>dag.cregs.values()\<close>) when the
  names of the group are distinct. For a DAG that comes from a circuit \<open>C\<close>, the map
  is the quantum registers of \<open>C\<close> followed by its classical registers, whatever the
  order in which \<open>C\<close> declared them: the set is kept, the insertion order is not.
  The circuit is made by the constructor modelled from the spec, which attaches the
  registers in the order of its arguments.
\<close>

theorem dag_to_circuit_register_order:
  assumes "dag_to_circuit d ns = Inr C'"
  shows "regs C' = fresh_registers Quantum (map snd (qregs d)) [] @
                   fresh_registers Classical (map snd (cregs d)) [] \<and>
         list_all (\<lambda>p. reg_kind (snd p) = Quantum) (fresh_registers Quantum (map snd (qregs d)) []) \<and>
         list_all (\<lambda>p. reg_kind (snd p) = Classical)
           (fresh_registers Classical (map snd (cregs d)) []) \<and>
         (distinct (map reg_name (map snd (qregs d))) \<longrightarrow>
            map snd (fresh_registers Quantum (map snd (qregs d)) []) =
              map (\<lambda>r. \<lparr>reg_name = reg_name r, reg_size = reg_size r, reg_kind = Quantum\<rparr>)
                (map snd (qregs d))) \<and>
         (distinct (map reg_name (map snd (cregs d))) \<longrightarrow>
            map snd (fresh_registers Classical (map snd (cregs d)) []) =
              map (\<lambda>r. \<lparr>reg_name = reg_name r, reg_size = reg_size r, reg_kind = Classical\<rparr>)
                (map snd (cregs d))) \<and>
         (\<forall>C. regs_ok (regs C) \<longrightarrow> dag C = Inr d \<longrightarrow>
            regs C' = of_kind Quantum (regs C) @ of_kind Classical (regs C))"
proof (intro conjI allI impI)
  show "regs C' = fresh_registers Quantum (map snd (qregs d)) [] @
                   fresh_registers Classical (map snd (cregs d)) []"
    using assms by (rule dag_to_circuit_regs)
  show "list_all (\<lambda>p. reg_kind (snd p) = Quantum) (fresh_registers Quantum (map snd (qregs d)) [])"
    unfolding list_all_iff by (rule fresh_registers_kind) simp
  show "list_all (\<lambda>p. reg_kind (snd p) = Classical) (fresh_registers Classical (map snd (cregs d)) [])"
    unfolding list_all_iff by (rule fresh_registers_kind) simp
next
  assume "distinct (map reg_name (map snd (qregs d)))"
  then show "map snd (fresh_registers Quantum (map snd (qregs d)) []) =
              map (\<lambda>r. \<lparr>reg_name = reg_name r, reg_size = reg_size r, reg_kind = Quantum\<rparr>)
                (map snd (qregs d))"
    by (simp add: fresh_registers_distinct comp_def)
next
  assume "distinct (map reg_name (map snd (cregs d)))"
  then show "map snd (fresh_registers Classical (map snd (cregs d)) []) =
              map (\<lambda>r. \<lparr>reg_name = reg_name r, reg_size = reg_size r, reg_kind = Classical\<rparr>)
                (map snd (cregs d))"
    by (simp add: fresh_registers_distinct comp_def)
next
  fix C :: "'a circuit"
  assume ok: "regs_ok (regs C)" and d: "dag C = Inr d"
  from dag_regs [OF ok d] fresh_of_kind [OF ok] dag_to_circuit_regs [OF assms]
  show "regs C' = of_kind Quantum (regs C) @ of_kind Classical (regs C)" by simp
qed

subsection \<open>Instructions into the DAG\<close>

lemma resolve_names:
  "keyed rs \<Longrightarrow> resolve rs bs = Inr as \<Longrightarrow> map bit_of as = bs"
proof (induction bs arbitrary: as)
  case Nil then show ?case by simp
next
  case (Cons b bs)
  obtain n i where b: "b = (n, i)" by (cases b)
  with Cons.prems(2) obtain r as' where m: "map_of rs n = Some r"
    and rest: "resolve rs bs = Inr as'" and as: "as = (r, i) # as'"
    by (auto split: option.splits sum.splits)
  from m have "(n, r) \<in> set rs" by (rule map_of_SomeD)
  with Cons.prems(1) have "n = reg_name r" by (auto simp: keyed_def)
  with Cons.IH [OF Cons.prems(1) rest] as b show ?case by (simp add: bit_of_def)
qed

lemma resolve_condition_names:
  "keyed rs \<Longrightarrow> resolve_condition rs cond = Inr cd \<Longrightarrow>
   map_option (\<lambda>(r, v). (reg_name r, v)) cd = cond"
proof (cases cond)
  case None
  assume "resolve_condition rs cond = Inr cd"
  with None show ?thesis by (simp add: resolve_condition_def)
next
  case (Some a)
  assume k: "keyed rs" and rc: "resolve_condition rs cond = Inr cd"
  obtain n v where a: "a = (n, v)" by (cases a)
  with Some rc obtain r where m: "map_of rs n = Some r" and cd: "cd = Some (r, v)"
    by (auto simp: resolve_condition_def split: option.splits)
  from m have "(n, r) \<in> set rs" by (rule map_of_SomeD)
  with k have "n = reg_name r" by (auto simp: keyed_def)
  with cd Some a show ?thesis by simp
qed

lemma dag_control_names:
  "dag_control g = map_option (\<lambda>(r, v). (reg_name r, v)) (control g)"
  by (simp add: dag_control_def split: option.splits)

lemma dag_instruction_converted:
  assumes kq: "keyed (qregs d)" and kc: "keyed (cregs d)"
    and st: "dag_instruction d g = Inr d'"
  shows "\<exists>n. nodes d' = nodes d @ [Op n] \<and> converted g n"
proof -
  from dag_instruction_result [OF st] obtain qs cs qa ca cd where
    sep: "separate_args g = Inr (qs, cs)"
    and rq: "resolve (qregs d) qs = Inr qa" and rc: "resolve (cregs d) cs = Inr ca"
    and rcd: "resolve_condition (cregs d) (dag_control g) = Inr cd"
    and nd: "nodes d' = nodes d @
        [Op \<lparr>op_name = name g, op_params = param g, qargs = qa, cargs = ca, condition = cd\<rparr>]"
    by blast
  from resolve_names [OF kq rq] have q: "map bit_of qa = qs" .
  from resolve_names [OF kc rc] have c: "map bit_of ca = cs" .
  from resolve_condition_names [OF kc rcd] have cdn:
    "map_option (\<lambda>(r, v). (reg_name r, v)) cd = map_option (\<lambda>(r, v). (reg_name r, v)) (control g)"
    by (simp add: dag_control_names)
  have ops: "if name g = ''measure''
       then 2 \<le> length (arg g) \<and> map bit_of qa = [bit_of (arg g ! 0)] \<and>
            map bit_of ca = [bit_of (arg g ! 1)]
       else map bit_of qa = map bit_of (arg g) \<and> ca = []"
  proof (cases "name g = ''measure''")
    case True
    with sep obtain a0 a1 rest where "arg g = a0 # a1 # rest" "qs = [bit_of a0]" "cs = [bit_of a1]"
      by (auto simp: separate_args_def split: list.splits)
    with True q c show ?thesis by simp
  next
    case False
    with sep have "qs = map bit_of (arg g)" "cs = []"
      by (auto simp: separate_args_def)
    with False q c show ?thesis by simp
  qed
  let ?n = "\<lparr>op_name = name g, op_params = param g, qargs = qa, cargs = ca, condition = cd\<rparr>"
  from ops cdn have "converted g ?n" by (simp add: converted_def)
  with nd show ?thesis by blast
qed

lemma dag_instructions_converted:
  "keyed (qregs d) \<Longrightarrow> keyed (cregs d) \<Longrightarrow> dag_instructions d gs = Inr d' \<Longrightarrow>
   \<exists>ns. nodes d' = nodes d @ map Op ns \<and> list_all2 converted gs ns"
proof (induction gs arbitrary: d)
  case Nil then show ?case by simp
next
  case (Cons g gs)
  from Cons.prems(3) obtain d1 where 1: "dag_instruction d g = Inr d1"
    and 2: "dag_instructions d1 gs = Inr d'"
    by (auto split: sum.splits)
  from dag_instruction_converted [OF Cons.prems(1,2) 1] obtain n where
    n: "nodes d1 = nodes d @ [Op n]" "converted g n" by blast
  from dag_instruction_result [OF 1] have "qregs d1 = qregs d" "cregs d1 = cregs d" by auto
  with Cons.prems have "keyed (qregs d1)" "keyed (cregs d1)" by simp_all
  from Cons.IH [OF this 2] obtain ns where
    "nodes d' = nodes d1 @ map Op ns" "list_all2 converted gs ns" by blast
  with n have "nodes d' = nodes d @ map Op (n # ns) \<and> list_all2 converted (g # gs) (n # ns)"
    by simp
  then show ?case by blast
qed

lemma ops_of_append: "ops_of (xs @ ys) = ops_of xs @ ops_of ys"
  by (induction xs rule: ops_of.induct) simp_all

lemma ops_of_terminals: "terminals ts \<Longrightarrow> ops_of ts = []"
  by (induction ts rule: ops_of.induct) (simp_all add: terminals_def)

lemma ops_of_Op: "ops_of (map Op ns) = ns"
  by (induction ns) simp_all

lemma dag_split:
  assumes "dag C = Inr d"
  obtains d0 where "dag_registers DAGCircuit (map snd (regs C)) = Inr d0"
    and "dag_instructions d0 (data C) = Inr d"
  using assms by (auto simp: dag_def split: sum.splits)

lemma dag_registers_keyed:
  assumes "dag_registers DAGCircuit rs = Inr d0"
  shows "keyed (qregs d0)" "keyed (cregs d0)" "basis d0 = []" "terminals (nodes d0)"
    "edges d0 = []"
  using dag_registers_result [OF assms]
  by (auto simp: DAGCircuit_def keyed_def)

lemma builtins_keyed: "map_of builtins nm = Some (n, a) \<Longrightarrow> n = nm"
  by (auto simp: builtins_def split: if_splits)

lemma builtins_dom: "nm \<in> fst ` set builtins \<longleftrightarrow> map_of builtins nm \<noteq> None"
  by (simp add: map_of_eq_None_iff)

lemma declare_builtin_basis:
  assumes "basis_ok (basis d)"
  shows "basis_ok (basis (declare_builtin d nm)) \<and>
         fst ` set (basis (declare_builtin d nm)) =
           fst ` set (basis d) \<union> ({nm} \<inter> fst ` set builtins)"
proof (cases "map_of builtins nm")
  case None
  then have "nm \<notin> fst ` set builtins" by (simp add: builtins_dom)
  with None assms show ?thesis by (simp add: declare_builtin_def)
next
  case (Some e)
  obtain n nq nc np where e: "e = (n, nq, nc, np)" by (cases e)
  with Some have n: "n = nm" by (auto dest: builtins_keyed)
  from Some have inb: "nm \<in> fst ` set builtins" by (simp add: builtins_dom)
  show ?thesis
  proof (cases "nm \<in> fst ` set (basis d)")
    case True
    with Some e n assms inb show ?thesis
      by (auto simp: declare_builtin_def add_basis_element_def)
  next
    case False
    with Some e n assms inb show ?thesis
      by (auto simp: declare_builtin_def add_basis_element_def basis_ok_def)
  qed
qed

lemma dag_instructions_basis:
  "basis_ok (basis d) \<Longrightarrow> dag_instructions d gs = Inr d' \<Longrightarrow>
   basis_ok (basis d') \<and>
   fst ` set (basis d') = fst ` set (basis d) \<union> (name ` set gs \<inter> fst ` set builtins)"
proof (induction gs arbitrary: d)
  case Nil then show ?case by simp
next
  case (Cons g gs)
  from Cons.prems(2) obtain d1 where 1: "dag_instruction d g = Inr d1"
    and 2: "dag_instructions d1 gs = Inr d'"
    by (auto split: sum.splits)
  from dag_instruction_result [OF 1] have b1: "basis d1 = basis (declare_builtin d (name g))"
    by auto
  from declare_builtin_basis [OF Cons.prems(1), of "name g"] b1
  have ok1: "basis_ok (basis d1)"
    and s1: "fst ` set (basis d1) = fst ` set (basis d) \<union> ({name g} \<inter> fst ` set builtins)"
    by simp_all
  from Cons.IH [OF ok1 2] have "basis_ok (basis d')"
    and "fst ` set (basis d') = fst ` set (basis d1) \<union> (name ` set gs \<inter> fst ` set builtins)"
    by simp_all
  with s1 show ?case by auto
qed

text \<open>
  C6. In the DAG that \<^verbatim>\<open>QuantumCircuit.dag\<close> returns, the operation nodes are, in
  their order, the instructions of the circuit in program order, each converted: same
  name and parameters, a measurement's first operand as its one quantum argument and its
  second as its one classical argument, and the condition with the same register name
  and value. The basis table holds exactly the builtin names (\<^verbatim>\<open>U\<close>, \<^verbatim>\<open>CX\<close>,
  \<^verbatim>\<open>measure\<close>, \<^verbatim>\<open>reset\<close>, \<^verbatim>\<open>barrier\<close>) that occur as instruction names, each
  once, with its fixed arity.
\<close>

theorem dag_conversion:
  assumes "dag C = Inr d"
  shows "list_all2 converted (data C) (ops_of (nodes d)) \<and>
         distinct (map fst (basis d)) \<and>
         fst ` set (basis d) =
           name ` set (data C) \<inter> {''U'', ''CX'', ''measure'', ''reset'', ''barrier''} \<and>
         set (basis d) \<subseteq>
           {(''U'', 1, 0, 3), (''CX'', 2, 0, 0), (''measure'', 1, 1, 0), (''reset'', 1, 0, 0),
            (''barrier'', - 1, 0, 0)}"
proof -
  from assms obtain d0 where 0: "dag_registers DAGCircuit (map snd (regs C)) = Inr d0"
    and 1: "dag_instructions d0 (data C) = Inr d"
    by (rule dag_split)
  note k = dag_registers_keyed [OF 0]
  from dag_instructions_converted [OF k(1,2) 1] obtain ns where
    ns: "nodes d = nodes d0 @ map Op ns" "list_all2 converted (data C) ns" by blast
  from ns(1) k(4) have "ops_of (nodes d) = ns"
    by (simp add: ops_of_append ops_of_terminals ops_of_Op)
  with ns(2) have A: "list_all2 converted (data C) (ops_of (nodes d))" by simp
  from k(3) have "basis_ok (basis d0)" by (simp add: basis_ok_def)
  from dag_instructions_basis [OF this 1] k(3) have ok: "basis_ok (basis d)"
    and dom: "fst ` set (basis d) = name ` set (data C) \<inter> fst ` set builtins"
    by simp_all
  have names: "fst ` set builtins = {''U'', ''CX'', ''measure'', ''reset'', ''barrier''}"
    by (simp add: builtins_def)
  have "set (basis d) \<subseteq>
           {(''U'', 1, 0, 3), (''CX'', 2, 0, 0), (''measure'', 1, 1, 0), (''reset'', 1, 0, 0),
            (''barrier'', - 1, 0, 0)}"
  proof
    fix e assume "e \<in> set (basis d)"
    with ok have "map_of builtins (fst e) = Some e" by (simp add: basis_ok_def)
    then have "(fst e, e) \<in> set builtins" by (rule map_of_SomeD)
    then show "e \<in> {(''U'', 1, 0, 3), (''CX'', 2, 0, 0), (''measure'', 1, 1, 0),
        (''reset'', 1, 0, 0), (''barrier'', - 1, 0, 0)}"
      by (auto simp: builtins_def)
  qed
  with A ok dom names show ?thesis by (simp add: basis_ok_def)
qed

subsection \<open>A two-instruction chain, converted and back\<close>

lemmas ex_defs = ex_q1_def ex_c1_def Reset_def Measure_def

lemma dag_registers_ex_chain: "dag_registers DAGCircuit (map snd (regs ex_chain)) = Inr ex_dag0"
  by (simp add: ex_chain_def ex_dag0_def ex_defs DAGCircuit_def add_qreg_def add_creg_def
      register_bits_def)

lemma dag_instructions_ex_chain: "dag_instructions ex_dag0 (data ex_chain) = Inr ex_dag"
  by (simp add: ex_chain_def ex_dag0_def ex_dag_def ex_defs dag_instruction_def
      declare_builtin_def builtins_def add_basis_element_def separate_args_def bit_of_def
      dag_control_def apply_operation_back_def resolve_condition_def check_range_def
      writer_edges_def condition_bits_def register_bits_def)

lemma dag_ex_chain: "dag ex_chain = Inr ex_dag"
  by (simp add: dag_def dag_registers_ex_chain dag_instructions_ex_chain)

lemma order_ex_dag: "is_topological_order ex_dag [0, 2, 4, 5, 1, 3]"
  by (simp add: is_topological_order_def ex_dag_def out_edges_def)

lemma dag_to_circuit_ex_dag: "dag_to_circuit ex_dag [0, 2, 4, 5, 1, 3] =
   Inr \<lparr>data = data ex_chain, regs = [(''q'', ex_q1), (''c'', ex_c1)]\<rparr>"
  by (simp add: dag_to_circuit_def ex_dag_def ex_chain_def ex_defs new_circuit_def
      check_range_def duplicate_instruction_def attach_instruction_def)

theorem dag_to_circuit_register_order_witness:
  "dag ex_chain = Inr ex_dag \<and>
   dag_to_circuit ex_dag [0, 2, 4, 5, 1, 3] =
     Inr \<lparr>data = data ex_chain, regs = [(''q'', ex_q1), (''c'', ex_c1)]\<rparr> \<and>
   regs ex_chain = [(''c'', ex_c1), (''q'', ex_q1)] \<and>
   [(''q'', ex_q1), (''c'', ex_c1)] =
     of_kind Quantum (regs ex_chain) @ of_kind Classical (regs ex_chain)"
proof -
  have ok: "regs_ok (regs ex_chain)"
    by (simp add: regs_ok_def ex_chain_def ex_defs)
  from dag_to_circuit_register_order [OF dag_to_circuit_ex_dag]
  have "\<forall>C. regs_ok (regs C) \<longrightarrow> dag C = Inr ex_dag \<longrightarrow>
      regs \<lparr>data = data ex_chain, regs = [(''q'', ex_q1), (''c'', ex_c1)]\<rparr> =
        of_kind Quantum (regs C) @ of_kind Classical (regs C)"
    by blast
  with ok dag_ex_chain have "[(''q'', ex_q1), (''c'', ex_c1)] =
     of_kind Quantum (regs ex_chain) @ of_kind Classical (regs ex_chain)"
    by auto
  with dag_ex_chain dag_to_circuit_ex_dag show ?thesis
    by (simp add: ex_chain_def)
qed

theorem dag_conversion_witness:
  "dag ex_chain = Inr ex_dag \<and>
   list_all2 converted (data ex_chain) (ops_of (nodes ex_dag)) \<and>
   basis ex_dag = [(''reset'', 1, 0, 0), (''measure'', 1, 1, 0)] \<and>
   ops_of (nodes ex_dag) =
     [\<lparr>op_name = ''reset'', op_params = [], qargs = [(ex_q1, 0)], cargs = [], condition = None\<rparr>,
      \<lparr>op_name = ''measure'', op_params = [], qargs = [(ex_q1, 0)], cargs = [(ex_c1, 0)],
        condition = Some (ex_c1, 1)\<rparr>]"
proof -
  from dag_conversion [OF dag_ex_chain]
  have "list_all2 converted (data ex_chain) (ops_of (nodes ex_dag))" by (rule conjunct1)
  moreover have "basis ex_dag = [(''reset'', 1, 0, 0), (''measure'', 1, 1, 0)]"
    by (simp add: ex_dag_def)
  moreover have "ops_of (nodes ex_dag) =
     [\<lparr>op_name = ''reset'', op_params = [], qargs = [(ex_q1, 0)], cargs = [], condition = None\<rparr>,
      \<lparr>op_name = ''measure'', op_params = [], qargs = [(ex_q1, 0)], cargs = [(ex_c1, 0)],
        condition = Some (ex_c1, 1)\<rparr>]"
    by (simp add: ex_dag_def)
  ultimately show ?thesis using dag_ex_chain by simp
qed

subsection \<open>The round trip\<close>

lemma andthen_None: "andthen x y = None \<longleftrightarrow> x = None \<and> y = None"
  by (cases x) simp_all

lemma lookup_own:
  assumes ok: "regs_ok (regs C)" and h: "has_register C r" and k: "reg_kind r = k"
  shows "map_of (of_kind k (regs C)) (reg_name r) = Some r"
proof -
  from h obtain r' where m: "map_of (regs C) (reg_name r) = Some r'"
    and s: "reg_size r' = reg_size r" and kk: "reg_kind r' = reg_kind r"
    by (auto simp: has_register_def split: option.splits if_splits)
  from m ok have "reg_name r' = reg_name r" by (simp add: map_of_regs_ok)
  with s kk have "r' = r" by simp
  with m have m': "map_of (regs C) (reg_name r) = Some r" by simp
  from ok have "distinct (map fst (regs C))" by (simp add: regs_ok_def)
  from map_of_filter_in [OF m', of "\<lambda>n x. reg_kind x = k"] k
  have "map_of (filter (\<lambda>(n, x). reg_kind x = k) (regs C)) (reg_name r) = Some r" by simp
  moreover have "filter (\<lambda>(n, x). reg_kind x = k) (regs C) = of_kind k (regs C)"
    by (simp add: of_kind_def case_prod_unfold)
  ultimately show ?thesis by simp
qed

lemma check_qubits_None:
  "check_qubits C bs = None \<longleftrightarrow>
     (\<forall>b \<in> set bs. check_qreg C (fst b) = None \<and> check_range (fst b) (snd b) = None)"
  by (induction bs) (auto simp: andthen_None)

lemma resolve_own:
  assumes ok: "regs_ok (regs C)"
    and all: "\<forall>b \<in> set bs. reg_kind (fst b) = k \<and> has_register C (fst b) \<and>
                check_range (fst b) (snd b) = None"
  shows "resolve (of_kind k (regs C)) (map bit_of bs) = Inr bs"
  using all
proof (induction bs)
  case Nil then show ?case by simp
next
  case (Cons b bs)
  obtain r i where b: "b = (r, i)" by (cases b)
  with Cons.prems have "reg_kind r = k" "has_register C r" "check_range r i = None" by auto
  with lookup_own [OF ok, of r k] Cons b show ?case
    by (simp add: bit_of_def)
qed

lemma lookup_bits_own:
  assumes ok: "regs_ok (regs C)"
    and all: "\<forall>b \<in> set bs. reg_kind (fst b) = k \<and> has_register C (fst b) \<and>
                check_range (fst b) (snd b) = None"
  shows "lookup_bits (of_kind k (regs C)) bs = Inr bs"
  using all
proof (induction bs)
  case Nil then show ?case by simp
next
  case (Cons b bs)
  obtain r i where b: "b = (r, i)" by (cases b)
  with Cons.prems have "reg_kind r = k" "has_register C r" "check_range r i = None" by auto
  with lookup_own [OF ok, of r k] Cons b show ?case
    by simp
qed

lemma rebind_None:
  assumes "rebind g C = None"
  shows "(\<forall>b \<in> set (qargs (payload g)). reg_kind (fst b) = Quantum \<and> has_register C (fst b) \<and>
             check_range (fst b) (snd b) = None) \<and>
         (\<forall>b \<in> set (cargs (payload g)). reg_kind (fst b) = Classical \<and> has_register C (fst b) \<and>
             check_range (fst b) (snd b) = None) \<and>
         (\<forall>c v. control g = Some (c, v) \<longrightarrow> reg_kind c = Classical \<and> has_register C c) \<and>
         qargs (payload g) @ cargs (payload g) = arg g \<and>
         separate_args g = Inr (map bit_of (qargs (payload g)), map bit_of (cargs (payload g)))"
proof -
  have q: "\<And>r. check_qreg C r = None \<longleftrightarrow> reg_kind r = Quantum \<and> has_register C r"
    by (simp add: check_qreg_def)
  have c: "\<And>r. check_creg C r = None \<longleftrightarrow> reg_kind r = Classical \<and> has_register C r"
    by (simp add: check_creg_def)
  from assms have ctl: "(case control g of None \<Rightarrow> None | Some (c, v) \<Rightarrow> check_creg C c) = None"
    and ops: "(if name g = ''measure'' then
          (case arg g of
             [(q, i), (c, j)] \<Rightarrow>
               andthen (check_qubit C (Bit q i)) (andthen (check_creg C c) (check_range c j))
           | _ \<Rightarrow> Some WrongRegisterKindError)
        else andthen (check_qubits C (arg g)) (check_dups (arg g))) = None"
    unfolding rebind_def andthen_None by simp_all
  from ctl have C3: "\<forall>c v. control g = Some (c, v) \<longrightarrow> reg_kind c = Classical \<and> has_register C c"
    by (auto simp: c split: option.splits)
  show ?thesis
  proof (cases "name g = ''measure''")
    case True
    with ops obtain q i c' j where ar: "arg g = [(q, i), (c', j)]"
      and ch: "andthen (check_qubit C (Bit q i)) (andthen (check_creg C c') (check_range c' j)) = None"
      by (auto split: list.splits prod.splits)
    from ch have "reg_kind q = Quantum" "has_register C q" "check_range q i = None"
      "reg_kind c' = Classical" "has_register C c'" "check_range c' j = None"
      by (simp_all add: andthen_None q c)
    with True ar C3 show ?thesis
      by (simp add: payload_def separate_args_def)
  next
    case False
    with ops have "check_qubits C (arg g) = None" by (simp add: andthen_None)
    then have "\<forall>b \<in> set (arg g). reg_kind (fst b) = Quantum \<and> has_register C (fst b) \<and>
        check_range (fst b) (snd b) = None"
      by (simp add: check_qubits_None q)
    with False C3 show ?thesis
      by (simp add: payload_def separate_args_def)
  qed
qed

lemma dag_instruction_ok:
  assumes ok: "regs_ok (regs C)" and g: "rebind g C = None"
    and dq: "qregs d = of_kind Quantum (regs C)" and dc: "cregs d = of_kind Classical (regs C)"
  shows "\<exists>d'. dag_instruction d g = Inr d' \<and>
           qregs d' = qregs d \<and> cregs d' = cregs d \<and>
           nodes d' = nodes d @ [Op (payload g)] \<and>
           edges d' = edges d @ writer_edges (last_writer d) (touched g) (length (nodes d)) \<and>
           last_writer d' = map (\<lambda>b. (b, length (nodes d))) (touched g) @ last_writer d"
proof -
  note r = rebind_None [OF g]
  from r have sep: "separate_args g = Inr (map bit_of (qargs (payload g)), map bit_of (cargs (payload g)))"
    by blast
  from r have "map bit_of (qargs (payload g)) @ map bit_of (cargs (payload g)) = map bit_of (arg g)"
    by (metis map_append)
  then have t: "map bit_of (qargs (payload g)) @ map bit_of (cargs (payload g)) @
      condition_bits (control g) = touched g"
    by (simp add: touched_def)
  from r resolve_own [OF ok, of "qargs (payload g)" Quantum]
  have rq: "resolve (of_kind Quantum (regs C)) (map bit_of (qargs (payload g))) = Inr (qargs (payload g))"
    by blast
  from r resolve_own [OF ok, of "cargs (payload g)" Classical]
  have rc: "resolve (of_kind Classical (regs C)) (map bit_of (cargs (payload g))) = Inr (cargs (payload g))"
    by blast
  have rcd: "resolve_condition (of_kind Classical (regs C)) (dag_control g) = Inr (control g)"
  proof (cases "control g")
    case None
    then show ?thesis by (simp add: resolve_condition_def dag_control_def)
  next
    case (Some a)
    obtain c v where a: "a = (c, v)" by (cases a)
    with Some r have "reg_kind c = Classical" "has_register C c" by auto
    from lookup_own [OF ok this(2,1)] Some a show ?thesis
      by (simp add: resolve_condition_def dag_control_def)
  qed
  have pl: "\<lparr>op_name = name g, op_params = param g, qargs = qargs (payload g),
      cargs = cargs (payload g), condition = control g\<rparr> = payload g"
    by (simp add: payload_def)
  show ?thesis
    unfolding dag_instruction_def Let_def sep apply_operation_back_def
    by (simp add: declare_builtin_fields dq dc rq rc rcd pl t)
qed

lemma writer_edges_mem:
  "b \<in> set bs \<Longrightarrow> map_of lw b = Some p \<Longrightarrow> (p, m) \<in> set (writer_edges lw bs m)"
  by (force simp: writer_edges_def)

lemma last_writer_new:
  "b \<in> set bs \<Longrightarrow> map_of (map (\<lambda>b. (b, m)) bs @ rest) b = Some (m :: nat)"
  by (induction bs) auto

lemma chain_Cons:
  "chain (g # h # rest) \<Longrightarrow> (\<exists>b. b \<in> set (touched g) \<and> b \<in> set (touched h)) \<and> chain (h # rest)"
  by (auto simp: list_ex_iff)

lemma dag_instructions_ok:
  assumes ok: "regs_ok (regs C)"
  shows "\<forall>g \<in> set gs. rebind g C = None \<Longrightarrow>
     qregs d = of_kind Quantum (regs C) \<Longrightarrow> cregs d = of_kind Classical (regs C) \<Longrightarrow>
     \<exists>d'. dag_instructions d gs = Inr d' \<and>
        qregs d' = qregs d \<and> cregs d' = cregs d \<and>
        nodes d' = nodes d @ map (\<lambda>g. Op (payload g)) gs \<and>
        set (edges d) \<subseteq> set (edges d') \<and>
        (\<forall>h rest b p. gs = h # rest \<longrightarrow> b \<in> set (touched h) \<longrightarrow>
            map_of (last_writer d) b = Some p \<longrightarrow> (p, length (nodes d)) \<in> set (edges d')) \<and>
        (chain gs \<longrightarrow> (\<forall>k. Suc k < length gs \<longrightarrow>
            (length (nodes d) + k, length (nodes d) + Suc k) \<in> set (edges d')))"
proof (induction gs arbitrary: d)
  case Nil
  then show ?case by simp
next
  case (Cons g gs)
  from Cons.prems have g: "rebind g C = None" and gs: "\<forall>x \<in> set gs. rebind x C = None"
    by simp_all
  from dag_instruction_ok [OF ok g Cons.prems(2,3)] obtain d1 where
    1: "dag_instruction d g = Inr d1"
    and q1: "qregs d1 = qregs d" and c1: "cregs d1 = cregs d"
    and n1: "nodes d1 = nodes d @ [Op (payload g)]"
    and e1: "edges d1 = edges d @ writer_edges (last_writer d) (touched g) (length (nodes d))"
    and l1: "last_writer d1 = map (\<lambda>b. (b, length (nodes d))) (touched g) @ last_writer d"
    by blast
  from q1 c1 Cons.prems have "qregs d1 = of_kind Quantum (regs C)"
    "cregs d1 = of_kind Classical (regs C)" by simp_all
  from Cons.IH [OF gs this] obtain d' where
    2: "dag_instructions d1 gs = Inr d'"
    and q2: "qregs d' = qregs d1" and c2: "cregs d' = cregs d1"
    and n2: "nodes d' = nodes d1 @ map (\<lambda>g. Op (payload g)) gs"
    and e2: "set (edges d1) \<subseteq> set (edges d')"
    and f2: "\<forall>h rest b p. gs = h # rest \<longrightarrow> b \<in> set (touched h) \<longrightarrow>
            map_of (last_writer d1) b = Some p \<longrightarrow> (p, length (nodes d1)) \<in> set (edges d')"
    and ch2: "chain gs \<longrightarrow> (\<forall>k. Suc k < length gs \<longrightarrow>
            (length (nodes d1) + k, length (nodes d1) + Suc k) \<in> set (edges d'))"
    by blast
  have A: "dag_instructions d (g # gs) = Inr d'" using 1 2 by simp
  have B: "nodes d' = nodes d @ map (\<lambda>g. Op (payload g)) (g # gs)" using n1 n2 by simp
  have Cc: "set (edges d) \<subseteq> set (edges d')" using e1 e2 by auto
  have D: "\<forall>h rest b p. g # gs = h # rest \<longrightarrow> b \<in> set (touched h) \<longrightarrow>
            map_of (last_writer d) b = Some p \<longrightarrow> (p, length (nodes d)) \<in> set (edges d')"
  proof (intro allI impI)
    fix h rest b p
    assume "g # gs = h # rest" "b \<in> set (touched h)" "map_of (last_writer d) b = Some p"
    then have "(p, length (nodes d)) \<in> set (writer_edges (last_writer d) (touched g) (length (nodes d)))"
      by (auto intro: writer_edges_mem)
    with e1 e2 show "(p, length (nodes d)) \<in> set (edges d')" by auto
  qed
  have E: "chain (g # gs) \<longrightarrow> (\<forall>k. Suc k < length (g # gs) \<longrightarrow>
            (length (nodes d) + k, length (nodes d) + Suc k) \<in> set (edges d'))"
  proof (intro allI impI)
    fix k assume c: "chain (g # gs)" and k: "Suc k < length (g # gs)"
    from k obtain h rest where hr: "gs = h # rest" by (cases gs) auto
    with c obtain b where b: "b \<in> set (touched g)" "b \<in> set (touched h)"
      and c': "chain gs" using chain_Cons by blast
    have len1: "length (nodes d1) = Suc (length (nodes d))" using n1 by simp
    show "(length (nodes d) + k, length (nodes d) + Suc k) \<in> set (edges d')"
    proof (cases k)
      case 0
      from b(1) have "map_of (map (\<lambda>b. (b, length (nodes d))) (touched g) @ last_writer d) b
          = Some (length (nodes d))"
        by (rule last_writer_new)
      then have "map_of (last_writer d1) b = Some (length (nodes d))"
        unfolding l1 .
      with f2 hr b(2) have "(length (nodes d), length (nodes d1)) \<in> set (edges d')" by blast
      with 0 len1 show ?thesis by simp
    next
      case (Suc k')
      with k have "Suc k' < length gs" by simp
      with ch2 c' have "(length (nodes d1) + k', length (nodes d1) + Suc k') \<in> set (edges d')"
        by blast
      with Suc len1 show ?thesis by simp
    qed
  qed
  from A B Cc D E q1 q2 c1 c2 show ?case by auto
qed

lemma precedes_nth:
  "distinct ns \<Longrightarrow>
   precedes ns a b \<longleftrightarrow> (\<exists>i j. i < j \<and> j < length ns \<and> ns ! i = a \<and> ns ! j = b)"
proof (induction ns)
  case Nil
  then show ?case by simp
next
  case (Cons x xs)
  show ?case
  proof (cases "x = a")
    case True
    have "b \<in> set xs \<longleftrightarrow> (\<exists>i j. i < j \<and> j < length (x # xs) \<and> (x # xs) ! i = a \<and> (x # xs) ! j = b)"
    proof
      assume "b \<in> set xs"
      then obtain j where "j < length xs" "xs ! j = b" by (auto simp: in_set_conv_nth)
      with True have "0 < Suc j \<and> Suc j < length (x # xs) \<and> (x # xs) ! 0 = a \<and> (x # xs) ! Suc j = b"
        by simp
      then show "\<exists>i j. i < j \<and> j < length (x # xs) \<and> (x # xs) ! i = a \<and> (x # xs) ! j = b"
        by blast
    next
      assume "\<exists>i j. i < j \<and> j < length (x # xs) \<and> (x # xs) ! i = a \<and> (x # xs) ! j = b"
      then obtain i j where ij: "i < j" "j < length (x # xs)" "(x # xs) ! i = a" "(x # xs) ! j = b"
        by blast
      from ij(1) obtain j' where j': "j = Suc j'" by (cases j) auto
      with ij have "j' < length xs" "xs ! j' = b" by simp_all
      then show "b \<in> set xs" by (auto simp: in_set_conv_nth)
    qed
    with True show ?thesis by simp
  next
    case False
    from Cons.prems have dx: "distinct xs" by simp
    have "(\<exists>i j. i < j \<and> j < length xs \<and> xs ! i = a \<and> xs ! j = b) \<longleftrightarrow>
          (\<exists>i j. i < j \<and> j < length (x # xs) \<and> (x # xs) ! i = a \<and> (x # xs) ! j = b)"
    proof
      assume "\<exists>i j. i < j \<and> j < length xs \<and> xs ! i = a \<and> xs ! j = b"
      then obtain i j where "i < j" "j < length xs" "xs ! i = a" "xs ! j = b" by blast
      then have "Suc i < Suc j \<and> Suc j < length (x # xs) \<and> (x # xs) ! Suc i = a \<and> (x # xs) ! Suc j = b"
        by simp
      then show "\<exists>i j. i < j \<and> j < length (x # xs) \<and> (x # xs) ! i = a \<and> (x # xs) ! j = b"
        by blast
    next
      assume "\<exists>i j. i < j \<and> j < length (x # xs) \<and> (x # xs) ! i = a \<and> (x # xs) ! j = b"
      then obtain i j where ij: "i < j" "j < length (x # xs)" "(x # xs) ! i = a" "(x # xs) ! j = b"
        by blast
      from ij(3) False obtain i' where i': "i = Suc i'" by (cases i) auto
      with ij(1) obtain j' where j': "j = Suc j'" by (cases j) auto
      from ij i' j' have "i' < j' \<and> j' < length xs \<and> xs ! i' = a \<and> xs ! j' = b" by simp
      then show "\<exists>i j. i < j \<and> j < length xs \<and> xs ! i = a \<and> xs ! j = b" by blast
    qed
    with False Cons.IH [OF dx] show ?thesis by simp
  qed
qed

lemma precedes_trans:
  assumes d: "distinct ns" and ab: "precedes ns a b" and bc: "precedes ns b c"
  shows "precedes ns a c"
proof -
  from ab d obtain i j where 1: "i < j" "j < length ns" "ns ! i = a" "ns ! j = b"
    by (auto simp: precedes_nth)
  from bc d obtain j' k where 2: "j' < k" "k < length ns" "ns ! j' = b" "ns ! k = c"
    by (auto simp: precedes_nth)
  from 1 2 have "ns ! j = ns ! j'" "j < length ns" "j' < length ns" by simp_all
  with d have "j = j'" by (simp add: nth_eq_iff_index_eq)
  with 1 2 have "i < k \<and> k < length ns \<and> ns ! i = a \<and> ns ! k = c" by simp
  with d show ?thesis unfolding precedes_nth [OF d] by blast
qed

lemma precedes_asym:
  assumes d: "distinct ns" and ab: "precedes ns a b"
  shows "\<not> precedes ns b a" and "a \<noteq> b"
proof -
  from ab d obtain i j where 1: "i < j" "j < length ns" "ns ! i = a" "ns ! j = b"
    by (auto simp: precedes_nth)
  show "\<not> precedes ns b a"
  proof
    assume "precedes ns b a"
    with d obtain j' i' where 2: "j' < i'" "i' < length ns" "ns ! j' = b" "ns ! i' = a"
      by (auto simp: precedes_nth)
    from 1 2 have "ns ! j = ns ! j'" "j < length ns" "j' < length ns"
      "ns ! i = ns ! i'" "i < length ns" "i' < length ns" by simp_all
    with d have "j = j'" "i = i'" by (simp_all add: nth_eq_iff_index_eq)
    with 1 2 show False by simp
  qed
  from 1 have "i < length ns" "i \<noteq> j" by simp_all
  with 1 d show "a \<noteq> b" by (metis nth_eq_iff_index_eq)
qed

lemma sorted_wrt_precedes: "distinct ns \<Longrightarrow> sorted_wrt (precedes ns) ns"
  unfolding sorted_wrt_iff_nth_less
  by (auto simp: precedes_nth)

lemma chain_precedes:
  assumes d: "distinct ns"
    and step: "\<forall>k. Suc k < m \<longrightarrow> precedes ns (base + k) (base + Suc k)"
  shows "base \<le> a \<Longrightarrow> a < b \<Longrightarrow> b < base + m \<Longrightarrow> precedes ns a b"
proof (induction b)
  case 0
  then show ?case by simp
next
  case (Suc b)
  from Suc.prems obtain k where k: "b = base + k" "Suc k < m"
    by (metis add_Suc_right le_add_diff_inverse less_Suc_eq_le nat_add_left_cancel_less order_trans)
  with step have last: "precedes ns b (Suc b)" by simp
  show ?case
  proof (cases "a = b")
    case True
    with last show ?thesis by simp
  next
    case False
    with Suc.prems have "a < b" "b < base + m" by simp_all
    with Suc.IH Suc.prems(1) have "precedes ns a b" by blast
    with last d show ?thesis by (blast intro: precedes_trans)
  qed
qed

lemma topological_chain_unique:
  assumes d: "distinct ns"
    and below: "\<forall>i \<in> set ns. i < base + m"
    and all: "\<forall>i < base + m. i \<in> set ns"
    and step: "\<forall>k. Suc k < m \<longrightarrow> precedes ns (base + k) (base + Suc k)"
  shows "filter (\<lambda>i. base \<le> i) ns = [base..<base + m]"
proof -
  let ?os = "filter (\<lambda>i. base \<le> i) ns"
  have s: "set ?os = {base..<base + m}" using below all by auto
  have "sorted_wrt (precedes ns) ?os"
    using d by (intro sorted_wrt_filter sorted_wrt_precedes)
  moreover have "\<And>x y. x \<in> set ?os \<Longrightarrow> y \<in> set ?os \<Longrightarrow> precedes ns x y \<Longrightarrow> x < y"
  proof -
    fix x y assume x: "x \<in> set ?os" and y: "y \<in> set ?os" and p: "precedes ns x y"
    from x y s have r: "base \<le> x" "x < base + m" "base \<le> y" "y < base + m" by auto
    show "x < y"
    proof (rule ccontr)
      assume "\<not> x < y"
      moreover from precedes_asym [OF d p] have "x \<noteq> y" "\<not> precedes ns y x" by simp_all
      ultimately have "y < x" by simp
      with r have "precedes ns y x" using chain_precedes [OF d step] by blast
      with \<open>\<not> precedes ns y x\<close> show False by simp
    qed
  qed
  ultimately have "sorted_wrt (<) ?os" by (rule sorted_wrt_mono_rel [rotated])
  then have "sorted ?os" "distinct ?os" by (simp_all add: strict_sorted_iff)
  moreover have "sorted [base..<base + m]" "distinct [base..<base + m]" by simp_all
  moreover from s have "set ?os = set [base..<base + m]" by simp
  ultimately show ?thesis by (metis sorted_distinct_set_unique)
qed

lemma ops_of_mem: "n \<in> set (ops_of xs) \<longleftrightarrow> Op n \<in> set xs"
  by (induction xs rule: ops_of.induct) auto

lemma attach_nodes_ok:
  assumes looks: "\<forall>n \<in> set (ops_of (nodes d)).
      lookup_bits qs (qargs n) = Inr (qargs n) \<and> lookup_bits cs (cargs n) = Inr (cargs n)"
  shows "\<forall>i \<in> set ns. i < length (nodes d) \<Longrightarrow>
     attach_nodes d qs cs ns circuit =
       Inr (circuit\<lparr>data := data circuit @
              map reattached (ops_of (map ((!) (nodes d)) ns))\<rparr>)"
proof (induction ns arbitrary: circuit)
  case Nil
  then show ?case by simp
next
  case (Cons i ns)
  from Cons.prems have i: "i < length (nodes d)" and rest: "\<forall>j \<in> set ns. j < length (nodes d)"
    by simp_all
  note IH = Cons.IH [OF rest]
  show ?case
  proof (cases "nodes d ! i")
    case (In b)
    with i IH show ?thesis by simp
  next
    case (Out b)
    with i IH show ?thesis by simp
  next
    case (Op n)
    with i have "Op n \<in> set (nodes d)" by (metis nth_mem)
    then have "n \<in> set (ops_of (nodes d))" by (simp add: ops_of_mem)
    with looks have "lookup_bits qs (qargs n) = Inr (qargs n)"
      "lookup_bits cs (cargs n) = Inr (cargs n)" by blast+
    with Op i IH show ?thesis by (simp add: attach_instruction_def reattached_def)
  qed
qed

lemma ops_of_terminal: "terminals ts \<Longrightarrow> t \<in> set ts \<Longrightarrow> ops_of (t # rest) = ops_of rest"
  by (cases t) (auto simp: terminals_def list_all_iff)

lemma selected_ops:
  assumes t: "terminals ts"
  shows "\<forall>i \<in> set ns. i < length ts + length ps \<Longrightarrow>
     ops_of (map ((!) (ts @ map Op ps)) ns) =
       map (\<lambda>i. ps ! (i - length ts)) (filter (\<lambda>i. length ts \<le> i) ns)"
proof (induction ns)
  case Nil
  then show ?case by simp
next
  case (Cons i ns)
  then have IH: "ops_of (map ((!) (ts @ map Op ps)) ns) =
       map (\<lambda>i. ps ! (i - length ts)) (filter (\<lambda>i. length ts \<le> i) ns)"
    and i: "i < length ts + length ps" by simp_all
  show ?case
  proof (cases "i < length ts")
    case True
    then have "(ts @ map Op ps) ! i = ts ! i" "ts ! i \<in> set ts"
      by (simp_all add: nth_append)
    with t have "ops_of ((ts @ map Op ps) ! i # map ((!) (ts @ map Op ps)) ns) =
        ops_of (map ((!) (ts @ map Op ps)) ns)"
      by (simp add: ops_of_terminal)
    with True IH show ?thesis by simp
  next
    case False
    with i have "(ts @ map Op ps) ! i = Op (ps ! (i - length ts))"
      by (simp add: nth_append)
    with False IH show ?thesis by simp
  qed
qed

lemma shifted_nth: "map (\<lambda>i. ps ! (i - base)) [base..<base + length ps] = ps"
proof -
  have "[base..<base + length ps] = map (\<lambda>i. i + base) [0..<length ps]"
    by (simp add: map_add_upt add.commute)
  then have "map (\<lambda>i. ps ! (i - base)) [base..<base + length ps] = map ((!) ps) [0..<length ps]"
    by (simp add: comp_def)
  then show ?thesis by (simp add: map_nth)
qed

lemma reattached_payload:
  assumes "rebind g C = None" and "barrier_ok g"
  shows "reattached (payload g) = g"
proof -
  from rebind_None [OF assms(1)] have a: "qargs (payload g) @ cargs (payload g) = arg g"
    by blast
  have n: "op_name (payload g) = name g" "op_params (payload g) = param g"
    "condition (payload g) = control g"
    by (simp_all add: payload_def)
  have sn: "name g = ''snapshot'' \<Longrightarrow> qargs (payload g) = arg g"
    by (simp add: payload_def)
  have br: "name g = ''barrier'' \<Longrightarrow> qargs (payload g) = arg g"
    by (simp add: payload_def)
  from assms(2) have p: "name g = ''barrier'' \<Longrightarrow> param g = []"
    by (simp add: barrier_ok_def split: if_splits)
  show ?thesis
    unfolding reattached_def duplicate_instruction_def n
    using a sn br p by (cases "name g = ''barrier''"; cases "name g = ''snapshot''") simp_all
qed

lemma of_kind_split:
  assumes "regs_ok rs"
  shows "regs_ok (of_kind Quantum rs @ of_kind Classical rs)"
    and "set (of_kind Quantum rs @ of_kind Classical rs) = set rs"
proof -
  from assms have d: "distinct (map fst rs)" and k: "\<forall>p \<in> set rs. fst p = reg_name (snd p)"
    by (auto simp: regs_ok_def list_all_iff)
  have dq: "distinct (map fst (of_kind Quantum rs))" and dc: "distinct (map fst (of_kind Classical rs))"
    using d by (simp_all add: of_kind_def distinct_map_filter)
  have disj: "set (map fst (of_kind Quantum rs)) \<inter> set (map fst (of_kind Classical rs)) = {}"
  proof (rule ccontr)
    assume "set (map fst (of_kind Quantum rs)) \<inter> set (map fst (of_kind Classical rs)) \<noteq> {}"
    then obtain n a b where a: "(n, a) \<in> set rs" "reg_kind a = Quantum"
      and b: "(n, b) \<in> set rs" "reg_kind b = Classical"
      by (auto simp: of_kind_def)
    from d a(1) b(1) have "a = b" by (rule eq_key_imp_eq_value)
    with a b show False by simp
  qed
  from dq dc disj have 1: "distinct (map fst (of_kind Quantum rs @ of_kind Classical rs))"
    by simp
  from k have "\<forall>p \<in> set (of_kind Quantum rs @ of_kind Classical rs). fst p = reg_name (snd p)"
    by (auto simp: of_kind_def)
  then have 2: "list_all (\<lambda>(k, r). k = reg_name r) (of_kind Quantum rs @ of_kind Classical rs)"
    unfolding list_all_iff by (simp add: case_prod_unfold)
  from 1 2 show "regs_ok (of_kind Quantum rs @ of_kind Classical rs)"
    unfolding regs_ok_def by (rule conjI)
  show "set (of_kind Quantum rs @ of_kind Classical rs) = set rs"
  proof -
    have "\<And>k. k \<noteq> Classical \<Longrightarrow> k = Quantum"
      by (metis kind.exhaust)
    then show ?thesis by (auto simp: of_kind_def)
  qed
qed

lemma wired_add_wires: "wired d \<Longrightarrow> wired (add_wires d bs)"
proof (induction d bs rule: add_wires.induct)
  case (1 d)
  then show ?case by simp
next
  case (2 d b rest)
  have "wired (d\<lparr>nodes := nodes d @ [In b, Out b],
                  last_writer := (b, length (nodes d)) # last_writer d\<rparr>)"
    using "2.prems" unfolding wired_def
    by (auto simp: nth_append)
  then show ?case using "2.IH" by simp
qed

lemma wired_qregs [simp]: "wired (d\<lparr>qregs := x\<rparr>) = wired d"
  by (simp add: wired_def)

lemma wired_cregs [simp]: "wired (d\<lparr>cregs := x\<rparr>) = wired d"
  by (simp add: wired_def)

lemma wired_basis [simp]: "wired (d\<lparr>basis := x\<rparr>) = wired d"
  by (simp add: wired_def)

lemma wired_dag_registers: "wired d \<Longrightarrow> dag_registers d rs = Inr d' \<Longrightarrow> wired d'"
proof (induction rs arbitrary: d)
  case Nil then show ?case by simp
next
  case (Cons r rs)
  from Cons.prems(2) obtain d1 where
    1: "(if reg_kind r = Quantum then add_qreg d (reg_name r) (reg_size r)
         else add_creg d (reg_name r) (reg_size r)) = Inr d1"
    and 2: "dag_registers d1 rs = Inr d'"
    by (auto split: sum.splits)
  from 1 Cons.prems(1) have "wired d1"
    by (auto simp: add_qreg_def add_creg_def wired_add_wires split: if_splits)
  from Cons.IH [OF this 2] show ?case .
qed

lemma writer_edges_set:
  "e \<in> set (writer_edges lw bs m) \<Longrightarrow> snd e = m \<and> (\<exists>b. (b, fst e) \<in> set lw)"
proof -
  assume "e \<in> set (writer_edges lw bs m)"
  then obtain b where "b \<in> set bs"
    and e: "e \<in> set (case map_of lw b of None \<Rightarrow> [] | Some p \<Rightarrow> [(p, m)])"
    by (auto simp: writer_edges_def)
  then obtain p where p: "map_of lw b = Some p" and "e = (p, m)"
    by (cases "map_of lw b") auto
  from map_of_SomeD [OF p] \<open>e = (p, m)\<close> have "(b, fst e) \<in> set lw" by simp
  then have "\<exists>b. (b, fst e) \<in> set lw" by (rule exI)
  with \<open>e = (p, m)\<close> show ?thesis by simp
qed

lemma wired_dag_instruction:
  assumes w: "wired d" and st: "dag_instruction d g = Inr d'"
  shows "wired d'"
proof -
  from dag_instruction_result [OF st] obtain qs cs cd n where
    nd: "nodes d' = nodes d @ [Op n]"
    and ed: "edges d' = edges d @
              writer_edges (last_writer d) (qs @ cs @ condition_bits cd) (length (nodes d))"
    and lw: "last_writer d' =
              map (\<lambda>b. (b, length (nodes d))) (qs @ cs @ condition_bits cd) @ last_writer d"
    by blast
  show ?thesis unfolding wired_def
  proof (rule conjI; rule ballI)
    fix e assume "e \<in> set (last_writer d')"
    with lw have "snd e = length (nodes d) \<or> e \<in> set (last_writer d)" by auto
    then show "snd e < length (nodes d') \<and> (\<forall>c. nodes d' ! snd e \<noteq> Out c)"
    proof
      assume "snd e = length (nodes d)"
      with nd show ?thesis by simp
    next
      assume "e \<in> set (last_writer d)"
      with w have "snd e < length (nodes d)" "\<forall>c. nodes d ! snd e \<noteq> Out c"
        by (auto simp: wired_def)
      with nd show ?thesis by (simp add: nth_append)
    qed
  next
    fix e assume "e \<in> set (edges d')"
    with ed have "e \<in> set (edges d) \<or>
        e \<in> set (writer_edges (last_writer d) (qs @ cs @ condition_bits cd) (length (nodes d)))"
      by auto
    then show "fst e < snd e \<and> snd e < length (nodes d') \<and> (\<exists>n. nodes d' ! snd e = Op n) \<and>
         (\<forall>c. nodes d' ! fst e \<noteq> Out c)"
    proof
      assume "e \<in> set (edges d)"
      with w have "fst e < snd e" "snd e < length (nodes d)" "\<exists>n. nodes d ! snd e = Op n"
        "\<forall>c. nodes d ! fst e \<noteq> Out c"
        by (auto simp: wired_def)
      with nd show ?thesis by (simp add: nth_append)
    next
      assume "e \<in> set (writer_edges (last_writer d) (qs @ cs @ condition_bits cd) (length (nodes d)))"
      from writer_edges_set [OF this] obtain b where
        m: "snd e = length (nodes d)" and b: "(b, fst e) \<in> set (last_writer d)" by blast
      from b w have "fst e < length (nodes d)" "\<forall>c. nodes d ! fst e \<noteq> Out c"
        by (auto simp: wired_def)
      with m nd show ?thesis by (simp add: nth_append)
    qed
  qed
qed

lemma wired_dag_instructions: "wired d \<Longrightarrow> dag_instructions d gs = Inr d' \<Longrightarrow> wired d'"
proof (induction gs arbitrary: d)
  case Nil then show ?case by simp
next
  case (Cons g gs)
  from Cons.prems(2) obtain d1 where 1: "dag_instruction d g = Inr d1"
    and 2: "dag_instructions d1 gs = Inr d'"
    by (auto split: sum.splits)
  from wired_dag_instruction [OF Cons.prems(1) 1] have "wired d1" .
  from Cons.IH [OF this 2] show ?case .
qed

lemma wired_dag: "dag C = Inr d \<Longrightarrow> wired d"
proof -
  assume "dag C = Inr d"
  then obtain d0 where 0: "dag_registers DAGCircuit (map snd (regs C)) = Inr d0"
    and 1: "dag_instructions d0 (data C) = Inr d"
    by (rule dag_split)
  have "wired (DAGCircuit :: 'a dag)" by (simp add: wired_def DAGCircuit_def)
  from wired_dag_registers [OF this 0] have "wired d0" .
  from wired_dag_instructions [OF this 1] show "wired d" .
qed


lemma precedes_append_cross: "a \<in> set xs \<Longrightarrow> b \<in> set ys \<Longrightarrow> precedes (xs @ ys) a b"
  by (induction xs) auto

lemma precedes_append_left: "precedes xs a b \<Longrightarrow> precedes (xs @ ys) a b"
  by (induction xs) auto

lemma precedes_append_right: "a \<notin> set xs \<Longrightarrow> precedes ys a b \<Longrightarrow> precedes (xs @ ys) a b"
  by (induction xs) auto

lemma precedes_sorted:
  "sorted_wrt (<) xs \<Longrightarrow> a \<in> set xs \<Longrightarrow> b \<in> set xs \<Longrightarrow> a < b \<Longrightarrow> precedes xs a b"
proof (induction xs)
  case Nil
  then show ?case by simp
next
  case (Cons x xs)
  show ?case
  proof (cases "x = a")
    case True
    with Cons.prems show ?thesis by auto
  next
    case False
    with Cons.prems have a: "a \<in> set xs" by simp
    from Cons.prems(1) a have "x < a" by simp
    with Cons.prems(4) have "b \<noteq> x" by simp
    with Cons.prems(3) have b: "b \<in> set xs" by simp
    from Cons.prems(1) have "sorted_wrt (<) xs" by simp
    from Cons.IH [OF this a b Cons.prems(4)] False show ?thesis by simp
  qed
qed

lemma node_id_Some: "node_id ys x = Some t \<Longrightarrow> t < length ys \<and> ys ! t = x"
proof (induction ys arbitrary: t)
  case Nil
  then show ?case by simp
next
  case (Cons y ys)
  show ?case
  proof (cases "y = x")
    case True
    with Cons.prems show ?thesis by simp
  next
    case False
    with Cons.prems obtain u where u: "node_id ys x = Some u" and t: "t = Suc u"
      by auto
    from Cons.IH [OF u] t show ?thesis by simp
  qed
qed

lemma out_edges_set:
  assumes "e \<in> set (out_edges d)"
  shows "\<exists>b. (b, fst e) \<in> set (last_writer d) \<and> snd e < length (nodes d) \<and>
             nodes d ! snd e = Out b"
proof -
  from assms obtain b where
    e: "e \<in> set (case (map_of (last_writer d) b, node_id (nodes d) (Out b)) of
                    (Some p, Some t) \<Rightarrow> [(p, t)] | _ \<Rightarrow> [])"
    by (auto simp: out_edges_def)
  then obtain p t where p: "map_of (last_writer d) b = Some p"
    and t: "node_id (nodes d) (Out b) = Some t" and "e = (p, t)"
    by (cases "map_of (last_writer d) b"; cases "node_id (nodes d) (Out b)") auto
  from map_of_SomeD [OF p] node_id_Some [OF t] \<open>e = (p, t)\<close>
  have "(b, fst e) \<in> set (last_writer d) \<and> snd e < length (nodes d) \<and>
        nodes d ! snd e = Out b" by simp
  then show ?thesis by (rule exI)
qed

lemma canonical_order_topological:
  assumes w: "wired d"
  shows "is_topological_order d (canonical_order d)"
proof -
  define n where "n = length (nodes d)"
  define ins where
    "ins = filter (\<lambda>i. case nodes d ! i of In b \<Rightarrow> True | _ \<Rightarrow> False) [0..<n]"
  define ops where
    "ops = filter (\<lambda>i. case nodes d ! i of Op g \<Rightarrow> True | _ \<Rightarrow> False) [0..<n]"
  define outs where
    "outs = filter (\<lambda>i. case nodes d ! i of Out b \<Rightarrow> True | _ \<Rightarrow> False) [0..<n]"
  have co: "canonical_order d = ins @ ops @ outs"
    by (simp add: canonical_order_def ins_def ops_def outs_def n_def)
  have in_ins: "i \<in> set ins \<longleftrightarrow> i < n \<and> (\<exists>b. nodes d ! i = In b)" for i
    by (auto simp: ins_def split: node.splits)
  have in_ops: "i \<in> set ops \<longleftrightarrow> i < n \<and> (\<exists>g. nodes d ! i = Op g)" for i
    by (auto simp: ops_def split: node.splits)
  have in_outs: "i \<in> set outs \<longleftrightarrow> i < n \<and> (\<exists>b. nodes d ! i = Out b)" for i
    by (auto simp: outs_def split: node.splits)
  have sorted_ops: "sorted_wrt (<) ops"
    unfolding ops_def by (rule sorted_wrt_filter) simp
  have dist: "distinct (ins @ ops @ outs)"
    using in_ins in_ops in_outs by (auto simp: ins_def ops_def outs_def)
  have bound: "list_all (\<lambda>i. i < n) (ins @ ops @ outs)"
    using in_ins in_ops in_outs by (auto simp: list_all_iff)
  have cover: "list_all (\<lambda>i. i \<in> set (ins @ ops @ outs)) [0..<n]"
  proof -
    have "i \<in> set (ins @ ops @ outs)" if "i < n" for i
      using that in_ins [of i] in_ops [of i] in_outs [of i]
      by (cases "nodes d ! i") auto
    then show ?thesis by (simp add: list_all_iff)
  qed
  have not_out: "i \<in> set (ins @ ops)" if "i < n" "\<forall>c. nodes d ! i \<noteq> Out c" for i
    using that in_ins [of i] in_ops [of i] by (cases "nodes d ! i") auto
  have e1: "precedes (ins @ ops @ outs) (fst e) (snd e)" if "e \<in> set (edges d)" for e
  proof -
    from w that have lt: "fst e < snd e" and m: "snd e < n"
      and op: "\<exists>g. nodes d ! snd e = Op g" and p: "\<forall>c. nodes d ! fst e \<noteq> Out c"
      by (auto simp: wired_def n_def)
    from m op have mo: "snd e \<in> set ops" by (simp add: in_ops)
    from lt m have "fst e < n" by simp
    from not_out [OF this p] have "fst e \<in> set ins \<or> fst e \<in> set ops" by simp
    then show ?thesis
    proof
      assume "fst e \<in> set ins"
      moreover from mo have "snd e \<in> set (ops @ outs)" by simp
      ultimately show ?thesis by (rule precedes_append_cross)
    next
      assume po: "fst e \<in> set ops"
      then have "fst e \<notin> set ins" by (auto simp: in_ins in_ops)
      moreover have "precedes (ops @ outs) (fst e) (snd e)"
        by (rule precedes_append_left) (rule precedes_sorted [OF sorted_ops po mo lt])
      ultimately show ?thesis by (rule precedes_append_right)
    qed
  qed
  have e2: "precedes (ins @ ops @ outs) (fst e) (snd e)" if "e \<in> set (out_edges d)" for e
  proof -
    from out_edges_set [OF that] obtain b where
      lw: "(b, fst e) \<in> set (last_writer d)" and t: "snd e < n" "nodes d ! snd e = Out b"
      by (auto simp: n_def)
    from w lw have "fst e < n" "\<forall>c. nodes d ! fst e \<noteq> Out c"
      by (auto simp: wired_def n_def)
    from not_out [OF this] have "fst e \<in> set (ins @ ops)" .
    moreover from t have "snd e \<in> set outs" by (simp add: in_outs)
    ultimately have "precedes ((ins @ ops) @ outs) (fst e) (snd e)"
      by (rule precedes_append_cross)
    then show ?thesis by simp
  qed
  have "list_all (\<lambda>(a, b). precedes (ins @ ops @ outs) a b) (edges d @ out_edges d)"
    unfolding list_all_iff
  proof
    fix e assume "e \<in> set (edges d @ out_edges d)"
    then have "precedes (ins @ ops @ outs) (fst e) (snd e)" using e1 e2 by auto
    then show "case e of (a, b) \<Rightarrow> precedes (ins @ ops @ outs) a b"
      by (simp add: case_prod_beta)
  qed
  with dist bound cover show ?thesis
    unfolding is_topological_order_def co n_def [symmetric] by simp
qed

lemma dag_has_topological_order: "dag C = Inr d \<Longrightarrow> is_topological_order d (canonical_order d)"
  by (rule canonical_order_topological) (rule wired_dag)

text \<open>
  C1. Let \<open>C\<close> satisfy the invariant of the data model (registers stored under their
  own, distinct names; every operand and condition resolving in \<open>C\<close>; barriers without
  parameters). Then \<^verbatim>\<open>C.dag()\<close> returns a DAG, its nodes have a topological order
  (the "in" terminals, the operations as appended, the "out" terminals), and for every
  topological order of its nodes \<^verbatim>\<open>dag_to_circuit\<close> returns a circuit whose registers are exactly those of
  \<open>C\<close> (same names, sizes, kinds) and, whenever every consecutive pair of the
  instructions of \<open>C\<close> shares a bit (an operand, or a bit of a condition register),
  whose instruction sequence is that of \<open>C\<close>. The DAG and the circuit class that
  \<^verbatim>\<open>dag_to_circuit\<close> builds on are the ones modelled from the spec.
\<close>

theorem roundtrip:
  assumes ok: "circuit_ok C" and bar: "list_all barrier_ok (data C)"
  shows "\<exists>d. dag C = Inr d \<and> is_topological_order d (canonical_order d) \<and>
           (\<forall>ns. is_topological_order d ns \<longrightarrow>
              (\<exists>C'. dag_to_circuit d ns = Inr C' \<and> set (regs C') = set (regs C) \<and>
                    regs_ok (regs C') \<and>
                    (chain (data C) \<longrightarrow> data C' = data C)))"
proof -
  from ok have rok: "regs_ok (regs C)" and iok: "\<forall>g \<in> set (data C). rebind g C = None"
    by (simp_all add: circuit_ok_def instruction_ok_def list_all_iff)
  from rok have "\<forall>p \<in> set (regs C). fst p = reg_name (snd p)"
    by (auto simp: regs_ok_def list_all_iff)
  then have eq: "map reg_name (map snd (regs C)) = map fst (regs C)" by simp
  from rok have dn: "distinct (map reg_name (map snd (regs C)))"
    unfolding eq by (simp add: regs_ok_def)
  have "\<exists>d0. dag_registers (DAGCircuit :: 'a dag) (map snd (regs C)) = Inr d0"
    using dn by (rule dag_registers_succeeds) (simp add: DAGCircuit_def)
  then obtain d0 :: "'a dag" where 0: "dag_registers DAGCircuit (map snd (regs C)) = Inr d0" ..
  from dag_registers_result [OF 0] rok
  have q0: "qregs d0 = of_kind Quantum (regs C)" and c0: "cregs d0 = of_kind Classical (regs C)"
    by (simp_all add: DAGCircuit_def regs_ok_values)
  from dag_registers_keyed [OF 0] have t0: "terminals (nodes d0)" by simp
  let ?base = "length (nodes d0)"
  let ?m = "length (data C)"
  let ?ps = "map payload (data C)"
  from dag_instructions_ok [OF rok iok q0 c0] obtain d where
    1: "dag_instructions d0 (data C) = Inr d"
    and qd: "qregs d = qregs d0" and cd: "cregs d = cregs d0"
    and nd': "nodes d = nodes d0 @ map (\<lambda>g. Op (payload g)) (data C)"
    and ch: "chain (data C) \<longrightarrow> (\<forall>k. Suc k < ?m \<longrightarrow> (?base + k, ?base + Suc k) \<in> set (edges d))"
    by blast
  from nd' have nd: "nodes d = nodes d0 @ map Op ?ps" by (simp add: comp_def)
  from nd' have len: "length (nodes d) = ?base + ?m" by simp
  from 0 1 have D: "dag C = Inr d" by (simp add: dag_def)
  let ?qs = "of_kind Quantum (regs C)"
  let ?cs = "of_kind Classical (regs C)"
  from qd q0 fresh_of_kind [OF rok, of Quantum]
  have fq: "fresh_registers Quantum (map snd (qregs d)) [] = ?qs" by simp
  from cd c0 fresh_of_kind [OF rok, of Classical]
  have fc: "fresh_registers Classical (map snd (cregs d)) [] = ?cs" by simp
  note sp = of_kind_split [OF rok]
  have "\<And>nm. new_circuit (map snd (?qs @ ?cs)) nm =
      Inr (\<lparr>data = [], regs = ?qs @ ?cs\<rparr> :: 'a circuit)"
    using sp(1) by (rule new_circuit_of_regs)
  then have mk: "\<And>nm. new_circuit (map snd ?qs @ map snd ?cs) nm =
      Inr (\<lparr>data = [], regs = ?qs @ ?cs\<rparr> :: 'a circuit)"
    by simp
  have ops: "ops_of (nodes d) = ?ps"
    unfolding nd ops_of_append ops_of_terminals [OF t0] ops_of_Op by simp
  have looks: "\<forall>n \<in> set (ops_of (nodes d)).
      lookup_bits ?qs (qargs n) = Inr (qargs n) \<and> lookup_bits ?cs (cargs n) = Inr (cargs n)"
  proof
    fix n assume "n \<in> set (ops_of (nodes d))"
    with ops obtain g where g: "g \<in> set (data C)" and n: "n = payload g" by auto
    from g iok have "rebind g C = None" by blast
    note r = rebind_None [OF this]
    from r lookup_bits_own [OF rok, of "qargs (payload g)" Quantum]
    have "lookup_bits ?qs (qargs (payload g)) = Inr (qargs (payload g))" by blast
    moreover from r lookup_bits_own [OF rok, of "cargs (payload g)" Classical]
    have "lookup_bits ?cs (cargs (payload g)) = Inr (cargs (payload g))" by blast
    ultimately show "lookup_bits ?qs (qargs n) = Inr (qargs n) \<and>
        lookup_bits ?cs (cargs n) = Inr (cargs n)"
      using n by simp
  qed
  have again: "\<forall>g \<in> set (data C). reattached (payload g) = g"
  proof
    fix g assume g: "g \<in> set (data C)"
    with iok have "rebind g C = None" by blast
    moreover from g bar have "barrier_ok g" by (simp add: list_all_iff)
    ultimately show "reattached (payload g) = g" by (rule reattached_payload)
  qed
  have "\<forall>ns. is_topological_order d ns \<longrightarrow>
      (\<exists>C'. dag_to_circuit d ns = Inr C' \<and> set (regs C') = set (regs C) \<and>
            regs_ok (regs C') \<and> (chain (data C) \<longrightarrow> data C' = data C))"
  proof (intro allI impI)
    fix ns assume topo: "is_topological_order d ns"
    then have dist: "distinct ns"
      and below: "\<forall>i \<in> set ns. i < length (nodes d)"
      and every: "\<forall>i < length (nodes d). i \<in> set ns"
      and resp: "\<forall>e \<in> set (edges d). precedes ns (fst e) (snd e)"
      by (auto simp: is_topological_order_def list_all_iff)
    let ?sel = "ops_of (map ((!) (nodes d)) ns)"
    let ?C' = "\<lparr>data = map reattached ?sel, regs = ?qs @ ?cs\<rparr> :: 'a circuit"
    from attach_nodes_ok [OF looks below, of "\<lparr>data = [], regs = ?qs @ ?cs\<rparr>"]
    have "attach_nodes d ?qs ?cs ns \<lparr>data = [], regs = ?qs @ ?cs\<rparr> = Inr ?C'"
      by simp
    with mk fq fc have R: "dag_to_circuit d ns = Inr ?C'"
      by (simp add: dag_to_circuit_def)
    have S: "chain (data C) \<longrightarrow> data ?C' = data C"
    proof
      assume c: "chain (data C)"
      with ch resp have step: "\<forall>k. Suc k < ?m \<longrightarrow> precedes ns (?base + k) (?base + Suc k)"
        by force
      from below len have b': "\<forall>i \<in> set ns. i < ?base + ?m" by simp
      from every len have e': "\<forall>i < ?base + ?m. i \<in> set ns" by simp
      from topological_chain_unique [OF dist b' e' step]
      have f: "filter (\<lambda>i. ?base \<le> i) ns = [?base..<?base + ?m]" .
      from below len have "\<forall>i \<in> set ns. i < length (nodes d0) + length ?ps" by simp
      from selected_ops [OF t0 this]
      have "?sel = map (\<lambda>i. ?ps ! (i - ?base)) (filter (\<lambda>i. ?base \<le> i) ns)"
        unfolding nd .
      also have "\<dots> = map (\<lambda>i. ?ps ! (i - ?base)) [?base..<?base + length ?ps]"
        unfolding f by simp
      also have "\<dots> = ?ps" by (rule shifted_nth)
      finally have "?sel = ?ps" .
      then have "map reattached ?sel = map (\<lambda>g. reattached (payload g)) (data C)"
        by (simp add: comp_def)
      also from again have "\<dots> = map (\<lambda>g. g) (data C)" by (intro map_cong) simp_all
      finally show "data ?C' = data C" by simp
    qed
    from R S sp show "\<exists>C'. dag_to_circuit d ns = Inr C' \<and> set (regs C') = set (regs C) \<and>
            regs_ok (regs C') \<and> (chain (data C) \<longrightarrow> data C' = data C)"
      by (intro exI [of _ ?C']) simp
  qed
  with D dag_has_topological_order [OF D] show ?thesis by blast
qed

lemma dag_registers_ex_cond: "dag_registers DAGCircuit (map snd (regs ex_cond)) = Inr ex_cond_dag0"
  by (simp add: ex_cond_def ex_cond_dag0_def ex_q_def ex_c1_def DAGCircuit_def add_qreg_def
      add_creg_def register_bits_def upt_rec)

lemma dag_instructions_ex_cond: "dag_instructions ex_cond_dag0 (data ex_cond) = Inr ex_cond_dag"
  by (simp add: ex_cond_def ex_cond_dag0_def ex_cond_dag_def ex_q_def ex_c1_def Reset_def
      Measure_def dag_instruction_def declare_builtin_def builtins_def add_basis_element_def
      separate_args_def bit_of_def dag_control_def apply_operation_back_def
      resolve_condition_def check_range_def writer_edges_def condition_bits_def
      register_bits_def)

lemma dag_ex_cond: "dag ex_cond = Inr ex_cond_dag"
  by (simp add: dag_def dag_registers_ex_cond dag_instructions_ex_cond)

lemma order_ex_cond_dag: "is_topological_order ex_cond_dag [0, 2, 4, 6, 7, 1, 3, 5]"
  by (simp add: is_topological_order_def ex_cond_dag_def out_edges_def)

lemma dag_to_circuit_ex_cond_dag: "dag_to_circuit ex_cond_dag [0, 2, 4, 6, 7, 1, 3, 5] =
   Inr \<lparr>data = data ex_cond, regs = [(''q'', ex_q), (''c'', ex_c1)]\<rparr>"
  by (simp add: dag_to_circuit_def ex_cond_dag_def ex_cond_def ex_q_def ex_c1_def Reset_def
      Measure_def new_circuit_def check_range_def duplicate_instruction_def
      attach_instruction_def)

lemma ex_cond_ok: "circuit_ok ex_cond"
  by (simp add: circuit_ok_def regs_ok_def instruction_ok_def rebind_def ex_cond_def ex_q_def
      ex_c1_def Reset_def Measure_def check_qreg_def check_creg_def check_range_def
      check_dups_def has_register_def)

theorem roundtrip_witness:
  "circuit_ok ex_cond \<and> list_all barrier_ok (data ex_cond) \<and> chain (data ex_cond) \<and>
   dag ex_cond = Inr ex_cond_dag \<and> is_topological_order ex_cond_dag [0, 2, 4, 6, 7, 1, 3, 5] \<and>
   dag_to_circuit ex_cond_dag [0, 2, 4, 6, 7, 1, 3, 5] =
     Inr \<lparr>data = data ex_cond, regs = [(''q'', ex_q), (''c'', ex_c1)]\<rparr> \<and>
   set [(''q'', ex_q), (''c'', ex_c1)] = set (regs ex_cond)"
proof -
  have bar: "list_all barrier_ok (data ex_cond)"
    by (simp add: barrier_ok_def ex_cond_def Reset_def Measure_def)
  have ch: "chain (data ex_cond)"
    by (simp add: ex_cond_def ex_q_def ex_c1_def Reset_def Measure_def touched_def bit_of_def
        condition_bits_def register_bits_def)
  from roundtrip [OF ex_cond_ok bar] obtain d where d: "dag ex_cond = Inr d"
    and "is_topological_order d (canonical_order d)"
    and every: "\<forall>ns. is_topological_order d ns \<longrightarrow>
      (\<exists>C'. dag_to_circuit d ns = Inr C' \<and> set (regs C') = set (regs ex_cond) \<and>
            regs_ok (regs C') \<and> (chain (data ex_cond) \<longrightarrow> data C' = data ex_cond))"
    by (elim exE conjE)
  from d have dd: "d = ex_cond_dag"
    unfolding dag_ex_cond by (rule sum.inject(2) [THEN iffD1, symmetric])
  from every [rule_format, OF order_ex_cond_dag [folded dd]] obtain C' where
    r: "dag_to_circuit d [0, 2, 4, 6, 7, 1, 3, 5] = Inr C'"
    and s: "set (regs C') = set (regs ex_cond)"
    by (elim exE conjE)
  from r have "C' = \<lparr>data = data ex_cond, regs = [(''q'', ex_q), (''c'', ex_c1)]\<rparr>"
    unfolding dd dag_to_circuit_ex_cond_dag by (rule sum.inject(2) [THEN iffD1, symmetric])
  with s have e: "set [(''q'', ex_q), (''c'', ex_c1)] = set (regs ex_cond)"
    by (simp only: circuit.simps)
  show ?thesis
    by (intro conjI ex_cond_ok bar ch dag_ex_cond order_ex_cond_dag dag_to_circuit_ex_cond_dag e)
qed

end
